theory Spec2Isabelle
  imports Complex_Main "HOL-Library.Word"
begin

unbundle bit_operations_syntax

section \<open>Common data\<close>

text \<open>
  A byte is an 8-bit word; \<open>bytes\<close> and \<open>bytearray\<close> objects are lists of bytes.
  Python integers are unbounded and are modelled as \<open>int\<close>; counts that the source
  only ever uses as sizes are \<open>nat\<close>.
\<close>

type_synonym byte = "8 word"
type_synonym bytes = "byte list"

text \<open>
  Every exception that the modelled code raises is a value. \<open>RbcpBusError\<close> and
  \<open>RbcpTimeout\<close> are subclasses of \<open>RbcpError\<close>; a plain \<open>RbcpError\<close> carries the reason
  given in its message.
\<close>

datatype rbcp_reason = HeaderTooShort nat nat | VersionMismatch | PacketIdMismatch

datatype exception =
    ValueError
  | StructError
  | IndexError
  | ZeroDivisionError
  | TypeError
  | RecursionError
  | VirtualRegisterOutOfRange
  | RbcpError rbcp_reason
  | RbcpBusError
  | RbcpTimeout

text \<open>Indexing a \<open>bytes\<close> object: a negative index counts from the end, an index outside
  the object raises \<open>IndexError\<close>.\<close>

definition py_index :: "bytes \<Rightarrow> int \<Rightarrow> exception + byte" where
  "py_index xs i =
     (let n = int (length xs) in
      if 0 \<le> i \<and> i < n then Inr (xs ! nat i)
      else if - n \<le> i \<and> i < 0 then Inr (xs ! nat (n + i))
      else Inl IndexError)"

text \<open>\<open>range(a, b)\<close> as the list of its values.\<close>

definition py_range :: "int \<Rightarrow> int \<Rightarrow> int list" where
  "py_range a b = map (\<lambda>k. a + int k) [0..<nat (b - a)]"

text \<open>\<open>struct.pack("B", v)\<close> raises \<open>struct.error\<close> for a value outside 0..255.\<close>

definition pack_B :: "int \<Rightarrow> exception + byte" where
  "pack_B v = (if 0 \<le> v \<and> v \<le> 255 then Inr (of_int v) else Inl StructError)"

section \<open>RBCP client (sitcpy/rbcp.py)\<close>

text \<open>
  An argument of \<open>Rbcp._make_header\<close> as Python sees it: either an \<open>int\<close> or a value
  of another type (a float, a string, \<open>None\<close>), which \<open>is_int\<close> rejects.
\<close>

datatype pyval = PyInt int | PyNonInt

definition HEADER_SIZE :: nat where
  "HEADER_SIZE = 8"

definition HEADER_READ :: int where
  "HEADER_READ = 0"

definition HEADER_WRITE :: int where
  "HEADER_WRITE = 1"

definition HEADER_VERTYPE :: byte where
  "HEADER_VERTYPE = 0xff"

text \<open>The four address bytes of a header, most significant first, with the masks and
  shifts of the source.\<close>

definition address_bytes :: "int \<Rightarrow> bytes" where
  "address_bytes register_address =
     [of_int ((drop_bit 24 (register_address AND 0xff000000)) AND 0xff),
      of_int ((drop_bit 16 (register_address AND 0x00ff0000)) AND 0xff),
      of_int ((drop_bit 8 (register_address AND 0x0000ff00)) AND 0xff),
      of_int ((drop_bit 0 (register_address AND 0x000000ff)) AND 0xff)]"

definition make_header :: "int \<Rightarrow> pyval \<Rightarrow> pyval \<Rightarrow> int \<Rightarrow> exception + bytes" where
  "make_header read_write register_address len packet_id =
     (case register_address of
        PyNonInt \<Rightarrow> Inl ValueError
      | PyInt a \<Rightarrow>
         (case len of
            PyNonInt \<Rightarrow> Inl ValueError
          | PyInt n \<Rightarrow>
              if a < 0 \<or> a > 0xffffffff then Inl ValueError
              else if n < 0 \<or> n > 255 then Inl ValueError
              else if a + n > 0xffffffff then Inl ValueError
              else
                (let command_type = (if read_write = HEADER_READ then 0xc0 else 0x80 :: byte)
                 in case pack_B packet_id of
                      Inl e \<Rightarrow> Inl e
                    | Inr pid \<Rightarrow>
                        Inr ([HEADER_VERTYPE, command_type, pid, of_int n]
                             @ address_bytes a))))"

definition check_packet :: "bytes \<Rightarrow> int \<Rightarrow> exception + unit" where
  "check_packet packet wait_id =
     (let len_packet = length packet in
      if len_packet < HEADER_SIZE then Inl (RbcpError (HeaderTooShort len_packet HEADER_SIZE))
      else if packet ! 0 \<noteq> HEADER_VERTYPE then Inl (RbcpError VersionMismatch)
      else if (packet ! 1) AND 0x1 = 1 then Inl RbcpBusError
      else if uint (packet ! 2) \<noteq> wait_id then Inl (RbcpError PacketIdMismatch)
      else Inr ())"

section \<open>The state primitive (sitcpy/__init__.py)\<close>

text \<open>
  A \<open>State\<close> object holds the integer \<open>_state\<close> and a condition variable. The condition
  variable is modelled by the set of threads blocked on it: \<open>wait\<close> on the condition
  adds the calling thread, \<open>notify_all\<close> releases every thread of the set.
\<close>

type_synonym thread = nat

record state_obj =
  state_value :: int
  cond_waiters :: "thread set"

definition State_init :: "int \<Rightarrow> state_obj" where
  "State_init initial_state = \<lparr>state_value = initial_state, cond_waiters = {}\<rparr>"

definition notify_all :: "state_obj \<Rightarrow> thread set \<times> state_obj" where
  "notify_all s = (cond_waiters s, s\<lparr>cond_waiters := {}\<rparr>)"

text \<open>\<open>transit\<close> returns its boolean result, the threads it has woken, and the object.\<close>

definition transit :: "state_obj \<Rightarrow> int \<Rightarrow> bool \<times> thread set \<times> state_obj" where
  "transit s new_state =
     (if new_state > state_value s
      then (let s1 = s\<lparr>state_value := new_state\<rparr>;
                (woken, s2) = notify_all s1
            in (True, woken, s2))
      else (False, {}, s))"

text \<open>A sequence of \<open>transit\<close> calls: the results, and the state value seen after each.\<close>

fun transit_all :: "state_obj \<Rightarrow> int list \<Rightarrow> state_obj" where
  "transit_all s [] = s"
| "transit_all s (n # ns) = transit_all (snd (snd (transit s n))) ns"

fun observed :: "state_obj \<Rightarrow> int list \<Rightarrow> int list" where
  "observed s [] = [state_value s]"
| "observed s (n # ns) = state_value s # observed (snd (snd (transit s n))) ns"

text \<open>
  \<open>wait\<close> loops: it tests the state, reads the clock when a timeout was given, and
  blocks on the condition. What the rest of the program does while the thread is
  blocked is an input of the model: one \<open>wait_round\<close> per blocking, with the clock
  reading of that iteration (\<open>time.time()\<close>, taken as an exact number) and the
  \<open>transit\<close> calls that other threads make before the thread runs again (woken by
  \<open>notify_all\<close>, by the expiry of its timed wait, or spuriously). A schedule that ends
  while the thread is still blocked gives the result \<open>None\<close>: the call has not returned.
\<close>

record wait_round =
  clock :: real
  transits :: "int list"

definition cond_wait :: "thread \<Rightarrow> state_obj \<Rightarrow> int list \<Rightarrow> state_obj" where
  "cond_wait me s others =
     (let blocked = s\<lparr>cond_waiters := insert me (cond_waiters s)\<rparr>;
          after = transit_all blocked others
      in after\<lparr>cond_waiters := cond_waiters after - {me}\<rparr>)"

fun wait_loop ::
  "thread \<Rightarrow> int \<Rightarrow> real option \<Rightarrow> real \<Rightarrow> state_obj \<Rightarrow> wait_round list \<Rightarrow> bool option \<times> state_obj"
where
  "wait_loop me state timeout end_time s [] =
     (if state_value s \<ge> state then (Some True, s) else (None, s))"
| "wait_loop me state timeout end_time s (r # rs) =
     (if state_value s \<ge> state then (Some True, s)
      else (case timeout of
              None \<Rightarrow> wait_loop me state timeout end_time (cond_wait me s (transits r)) rs
            | Some t \<Rightarrow>
                (let now = clock r in
                 if now > end_time then (Some False, s)
                 else wait_loop me state timeout end_time (cond_wait me s (transits r)) rs)))"

text \<open>\<open>wait\<close> itself: \<open>start\<close> is the clock reading from which \<open>end\<close> is computed.\<close>

definition wait ::
  "thread \<Rightarrow> state_obj \<Rightarrow> int \<Rightarrow> real option \<Rightarrow> real \<Rightarrow> wait_round list \<Rightarrow> bool option \<times> state_obj"
where
  "wait me s state timeout start schedule =
     (let end_time = start + (case timeout of None \<Rightarrow> 0 | Some t \<Rightarrow> t)
      in wait_loop me state timeout end_time s schedule)"

section \<open>DAQ client (sitcpy/daq_client.py)\<close>

text \<open>
  The receive loop of \<open>DaqClient.run\<close>. Each iteration of the loop is driven by what the
  socket does: nothing to read, bytes returned by \<open>recv\<close>, or an \<open>OSError\<close>. The calls made
  on the handler are recorded in the order they are made.
\<close>

datatype daq_event = NotReadable | Readable bytes | RaiseOSError

datatype daq_call = OnDaqData bytes | OnDaqRunning

datatype daq_outcome = Continue | Break | Raised exception

record daq_client =
  byte_array :: bytes
  running :: nat
  client_data_bytes :: nat
  calls :: "daq_call list"

definition daq_start :: daq_client where
  "daq_start = \<lparr>byte_array = [], running = 0, client_data_bytes = 0, calls = []\<rparr>"

definition on_running_tick :: "daq_client \<Rightarrow> daq_client" where
  "on_running_tick c =
     (let c1 = c\<lparr>running := running c + 1\<rparr> in
      if running c1 mod 2 = 0
      then c1\<lparr>calls := calls c1 @ [OnDaqRunning], running := 0\<rparr>
      else c1)"

definition daq_receive :: "nat \<Rightarrow> daq_client \<Rightarrow> bytes \<Rightarrow> daq_outcome \<times> daq_client" where
  "daq_receive data_unit c chunk =
     (let c1 = c\<lparr>byte_array := byte_array c @ chunk\<rparr>;
          len = length (byte_array c1)
      in if len \<ge> data_unit then
           (if data_unit = 0 then (Raised ZeroDivisionError, c1)
            else (let rest = len mod data_unit in
                  if rest = 0 then
                    (Continue, c1\<lparr>calls := calls c1 @ [OnDaqData (byte_array c1)],
                                   client_data_bytes := client_data_bytes c1 + len,
                                   byte_array := []\<rparr>)
                  else
                    (Continue, c1\<lparr>calls := calls c1 @ [OnDaqData (take (len - rest) (byte_array c1))],
                                   client_data_bytes := client_data_bytes c1 + (len - rest),
                                   byte_array := drop (len - rest) (byte_array c1)\<rparr>)))
         else (Continue, c1))"

definition daq_iteration :: "nat \<Rightarrow> daq_client \<Rightarrow> daq_event \<Rightarrow> daq_outcome \<times> daq_client" where
  "daq_iteration data_unit c ev =
     (case ev of
        RaiseOSError \<Rightarrow> (Break, c)
      | NotReadable \<Rightarrow> (Continue, on_running_tick c)
      | Readable chunk \<Rightarrow>
          (case daq_receive data_unit c chunk of
             (Continue, c1) \<Rightarrow> (Continue, on_running_tick c1)
           | (out, c1) \<Rightarrow> (out, c1)))"

text \<open>The loop runs one iteration per event until the events end (the state has left
  \<open>THREAD_RUNNING\<close>), the loop breaks, or an exception leaves it.\<close>

fun daq_loop :: "nat \<Rightarrow> daq_client \<Rightarrow> daq_event list \<Rightarrow> daq_outcome \<times> daq_client" where
  "daq_loop data_unit c [] = (Continue, c)"
| "daq_loop data_unit c (ev # evs) =
     (case daq_iteration data_unit c ev of
        (Continue, c1) \<Rightarrow> daq_loop data_unit c1 evs
      | (out, c1) \<Rightarrow> (out, c1))"

text \<open>The bytes that \<open>recv\<close> returned before the loop ended, and the buffers passed to
  \<open>on_daq_data\<close>.\<close>

fun received :: "daq_event list \<Rightarrow> bytes" where
  "received [] = []"
| "received (RaiseOSError # evs) = []"
| "received (NotReadable # evs) = received evs"
| "received (Readable chunk # evs) = chunk @ received evs"

fun daq_data :: "daq_call list \<Rightarrow> bytes list" where
  "daq_data [] = []"
| "daq_data (OnDaqData b # cs) = b # daq_data cs"
| "daq_data (OnDaqRunning # cs) = daq_data cs"

section \<open>Text sessions (sitcpy/cui.py)\<close>

definition CR :: byte where "CR = 0x0d"
definition LF :: byte where "LF = 0x0a"

text \<open>\<open>bytes.find\<close>: the index of the first occurrence of \<open>sub\<close>, or \<open>-1\<close>.\<close>

fun find_from :: "bytes \<Rightarrow> bytes \<Rightarrow> nat \<Rightarrow> int" where
  "find_from [] sub i = (if sub = [] then int i else - 1)"
| "find_from (x # xs) sub i =
     (if take (length sub) (x # xs) = sub then int i else find_from xs sub (Suc i))"

definition bytes_find :: "bytes \<Rightarrow> bytes \<Rightarrow> int" where
  "bytes_find byte_data sub = find_from byte_data sub 0"

text \<open>The handler's only field is the line separator it has detected last.\<close>

record text_handler =
  linesep :: bytes

definition TextHandler_init :: text_handler where
  "TextHandler_init = \<lparr>linesep = [CR, LF]\<rparr>"

fun find_delimiter_loop :: "text_handler \<Rightarrow> bytes \<Rightarrow> bytes list \<Rightarrow> int \<times> text_handler" where
  "find_delimiter_loop h byte_data [] = (- 1, h)"
| "find_delimiter_loop h byte_data (delimiter # ds) =
     (let pos = bytes_find byte_data delimiter in
      if pos \<ge> 0 then (pos + int (length delimiter), h\<lparr>linesep := delimiter\<rparr>)
      else find_delimiter_loop h byte_data ds)"

definition find_delimiter_position :: "text_handler \<Rightarrow> bytes \<Rightarrow> int \<times> text_handler" where
  "find_delimiter_position h byte_data =
     find_delimiter_loop h byte_data [[CR, LF], [LF], [CR]]"

text \<open>
  One receive of \<open>SessionThread.run\<close> with a text handler. \<open>on_data\<close> is the handler's
  method seen as a function from the message to its boolean result. The result tells
  what was passed to \<open>on_data\<close> (if anything), whether the loop continues, and the new
  residual buffer.
\<close>

record session =
  rest_byte_data :: bytes
  handler :: text_handler

record receive_result =
  message :: "bytes option"
  continue :: bool
  after :: session

definition session_receive :: "(bytes \<Rightarrow> bool) \<Rightarrow> session \<Rightarrow> bytes \<Rightarrow> receive_result" where
  "session_receive on_data s chunk =
     (if chunk = [] then \<lparr>message = None, continue = False, after = s\<rparr>
      else
        (let byte_data = (if rest_byte_data s \<noteq> [] then rest_byte_data s @ chunk else chunk);
             (delimiter_pos, h) = find_delimiter_position (handler s) byte_data
         in if delimiter_pos \<ge> 0 then
              (if \<not> on_data (take (nat delimiter_pos) byte_data)
               then \<lparr>message = Some (take (nat delimiter_pos) byte_data), continue = False,
                     after = s\<lparr>handler := h\<rparr>\<rparr>
               else \<lparr>message = Some (take (nat delimiter_pos) byte_data), continue = True,
                     after = s\<lparr>handler := h,
                                rest_byte_data := drop (nat delimiter_pos) byte_data\<rparr>\<rparr>)
            else \<lparr>message = None, continue = True,
                  after = s\<lparr>handler := h, rest_byte_data := byte_data\<rparr>\<rparr>))"

section \<open>Data generator (sitcpy/rbcp_server.py)\<close>

record data_generator =
  data_unit :: nat
  count :: int
  data_unit_count :: nat

definition DataGenerator_init :: data_generator where
  "DataGenerator_init = \<lparr>data_unit = 8, count = 0, data_unit_count = 2\<rparr>"

text \<open>\<open>struct.pack(">L", v)\<close>: four bytes, most significant first; \<open>struct.error\<close> outside
  the 32-bit range.\<close>

definition pack_L :: "int \<Rightarrow> exception + bytes" where
  "pack_L v =
     (if 0 \<le> v \<and> v < 2 ^ 32
      then Inr [of_int (v div 2 ^ 24), of_int (v div 2 ^ 16), of_int (v div 2 ^ 8), of_int v]
      else Inl StructError)"

text \<open>Storing into a \<open>bytearray\<close> at a non-negative index: \<open>IndexError\<close> outside it.\<close>

definition set_byte :: "bytes \<Rightarrow> nat \<Rightarrow> byte \<Rightarrow> exception + bytes" where
  "set_byte data i v = (if i < length data then Inr (data[i := v]) else Inl IndexError)"

fun store_bytes :: "bytes \<Rightarrow> nat \<Rightarrow> bytes \<Rightarrow> exception + bytes" where
  "store_bytes data index [] = Inr data"
| "store_bytes data index (count_byte # count_bytes) =
     (case set_byte data index count_byte of
        Inl e \<Rightarrow> Inl e
      | Inr data1 \<Rightarrow> store_bytes data1 (index + 1) count_bytes)"

definition create_unit :: "data_generator \<Rightarrow> bytes \<Rightarrow> nat \<Rightarrow> exception + bytes \<times> data_generator" where
  "create_unit g data u =
     (case pack_L (count g) of
        Inl e \<Rightarrow> Inl e
      | Inr count_bytes \<Rightarrow>
          (case set_byte data (data_unit g * u) 0xa5 of
             Inl e \<Rightarrow> Inl e
           | Inr data1 \<Rightarrow>
               (case store_bytes data1 (data_unit g * u + 4) count_bytes of
                  Inl e \<Rightarrow> Inl e
                | Inr data2 \<Rightarrow>
                    (let c = count g + 1 in
                     Inr (data2, g\<lparr>count := (if c = 0xffffffff then 0 else c)\<rparr>)))))"

fun create_units :: "data_generator \<Rightarrow> bytes \<Rightarrow> nat list \<Rightarrow> exception + bytes \<times> data_generator" where
  "create_units g data [] = Inr (data, g)"
| "create_units g data (u # us) =
     (case create_unit g data u of
        Inl e \<Rightarrow> Inl e
      | Inr (data1, g1) \<Rightarrow> create_units g1 data1 us)"

text \<open>\<open>range(0, data_unit_count - 1)\<close> is \<open>[0..<data_unit_count - 1]\<close>, empty for a count of
  0 or 1.\<close>

definition create_data :: "data_generator \<Rightarrow> nat \<Rightarrow> exception + bytes \<times> data_generator" where
  "create_data g n =
     create_units g (replicate (data_unit g * n) 0) [0..<n - 1]"

text \<open>A handler method \<open>on_data\<close> that always asks to continue.\<close>

definition keep_open :: "bytes \<Rightarrow> bool" where
  "keep_open byte_data = True"

text \<open>Vocabulary for the framing property: \<open>sub\<close> occurs in \<open>xs\<close> first at index \<open>k\<close>;
  \<open>sub\<close> does not occur in \<open>xs\<close>.\<close>

definition first_at :: "bytes \<Rightarrow> bytes \<Rightarrow> nat \<Rightarrow> bool" where
  "first_at sub xs k \<longleftrightarrow>
     take (length sub) (drop k xs) = sub \<and> (\<forall>j < k. take (length sub) (drop j xs) \<noteq> sub)"

definition absent :: "bytes \<Rightarrow> bytes \<Rightarrow> bool" where
  "absent sub xs \<longleftrightarrow> (\<forall>j. take (length sub) (drop j xs) \<noteq> sub)"

section \<open>Virtual registers (sitcpy/rbcp_server.py)\<close>

text \<open>
  A callback is an opaque Python callable. The model gives each one an identity and
  records every invocation with its arguments; a callback is taken to return normally
  and to leave the register alone. An operation returns the invocations it has made, in
  order, together with its result or the exception it raises.
\<close>

type_synonym callback = nat

datatype cb_event = ReadCallback callback int | WriteCallback callback int byte

type_synonym 'a result = "cb_event list \<times> (exception + 'a)"

definition return_res :: "'a \<Rightarrow> 'a result" where
  "return_res x = ([], Inr x)"

definition raise_res :: "exception \<Rightarrow> 'a result" where
  "raise_res e = ([], Inl e)"

text \<open>Sequencing: the second operation runs when the first one has not raised; the
  invocations of both are kept in order.\<close>

definition bind_res :: "'a result \<Rightarrow> ('a \<Rightarrow> 'b result) \<Rightarrow> 'b result" where
  "bind_res m f =
     (case m of
        (tr, Inl e) \<Rightarrow> (tr, Inl e)
      | (tr, Inr x) \<Rightarrow> (case f x of (tr', y) \<Rightarrow> (tr @ tr', y)))"

text \<open>
  A byte object handed to the register bank is either an immutable \<open>bytes\<close> object (what
  reading a binary file returns) or a mutable \<open>bytearray\<close>.
\<close>

datatype py_buffer = PyBytes bytes | PyBytearray bytes

fun buffer_content :: "py_buffer \<Rightarrow> bytes" where
  "buffer_content (PyBytes bs) = bs"
| "buffer_content (PyBytearray bs) = bs"

fun buffer_is_bytearray :: "py_buffer \<Rightarrow> bool" where
  "buffer_is_bytearray (PyBytes bs) = False"
| "buffer_is_bytearray (PyBytearray bs) = True"

text \<open>
  The fields of \<open>VirtualRegister\<close>. \<open>_memory\<close> is given by its content and by whether the
  object is a \<open>bytearray\<close>: a slice assignment to a \<open>bytes\<close> object raises \<open>TypeError\<close>.
  \<open>_memory_size\<close> is not a field of the model: the constructor, \<open>set_initial_data\<close> and
  \<open>merge\<close> all set it to the length of \<open>_memory\<close>. \<open>set_initial_data\<close> keeps the object it
  is given; its caller \<open>initialize_registers\<close> holds no other reference to it, so the
  register owns its memory.
\<close>

record virtual_register =
  memory :: bytes
  memory_is_bytearray :: bool
  start_address :: int
  read_callbacks :: "int \<rightharpoonup> callback"
  write_callbacks :: "int \<rightharpoonup> callback"

definition memory_size :: "virtual_register \<Rightarrow> nat" where
  "memory_size r = length (memory r)"

definition VirtualRegister :: "nat \<Rightarrow> int \<Rightarrow> virtual_register" where
  "VirtualRegister mem_size start =
     \<lparr>memory = replicate mem_size 0, memory_is_bytearray = True, start_address = start,
      read_callbacks = Map.empty, write_callbacks = Map.empty\<rparr>"

definition set_initial_data :: "virtual_register \<Rightarrow> py_buffer \<Rightarrow> virtual_register" where
  "set_initial_data r initial_data =
     r\<lparr>memory := buffer_content initial_data,
       memory_is_bytearray := buffer_is_bytearray initial_data\<rparr>"

definition create :: "int \<Rightarrow> py_buffer \<Rightarrow> virtual_register" where
  "create start initial_data =
     set_initial_data (VirtualRegister (length (buffer_content initial_data)) start) initial_data"

definition get_register_info :: "virtual_register \<Rightarrow> int \<times> int \<times> nat" where
  "get_register_info r =
     (start_address r, start_address r + int (memory_size r), memory_size r)"

definition is_intersect :: "virtual_register \<Rightarrow> virtual_register \<Rightarrow> bool" where
  "is_intersect self register =
     (case get_register_info register of
        (start, end_address, mem_size) \<Rightarrow>
          if start_address self \<le> start
          then start_address self + int (memory_size self) > start
          else end_address > start_address self)"

definition is_neighbor :: "virtual_register \<Rightarrow> virtual_register \<Rightarrow> bool" where
  "is_neighbor self register =
     (case get_register_info register of
        (start, end_address, mem_size) \<Rightarrow>
          if start_address self + int (memory_size self) = start then True
          else if end_address = start_address self then True
          else False)"

definition check_address_range :: "virtual_register \<Rightarrow> int \<Rightarrow> nat \<Rightarrow> bool" where
  "check_address_range r address len \<longleftrightarrow>
     start_address r \<le> address
     \<and> start_address r + int (memory_size r) \<ge> address + int len"

definition register_write_callback :: "virtual_register \<Rightarrow> int \<Rightarrow> callback \<Rightarrow> virtual_register" where
  "register_write_callback r address write_callback =
     (if check_address_range r address 1
      then r\<lparr>write_callbacks := (write_callbacks r)(address \<mapsto> write_callback)\<rparr>
      else r)"

definition register_read_callback :: "virtual_register \<Rightarrow> int \<Rightarrow> callback \<Rightarrow> virtual_register" where
  "register_read_callback r address read_callback =
     (if check_address_range r address 1
      then r\<lparr>read_callbacks := (read_callbacks r)(address \<mapsto> read_callback)\<rparr>
      else r)"

text \<open>
  The callback loop of \<open>write_bytes\<close>. The value handed to a callback is
  \<open>data_bytes[write_address - self._start_address]\<close>, as the source has it; the index
  expression raises \<open>IndexError\<close> when it falls outside \<open>data_bytes\<close>.
\<close>

fun write_callback_loop :: "virtual_register \<Rightarrow> bytes \<Rightarrow> int list \<Rightarrow> unit result" where
  "write_callback_loop r data_bytes [] = return_res ()"
| "write_callback_loop r data_bytes (write_address # rest) =
     (case write_callbacks r write_address of
        None \<Rightarrow> write_callback_loop r data_bytes rest
      | Some cb \<Rightarrow>
          (case py_index data_bytes (write_address - start_address r) of
             Inl e \<Rightarrow> raise_res e
           | Inr v \<Rightarrow>
               bind_res ([WriteCallback cb write_address v], Inr ())
                        (\<lambda>_. write_callback_loop r data_bytes rest)))"

text \<open>The slice assignment \<open>memory[lo:lo + len(data)] = data\<close> for a slice inside the
  memory of a \<open>bytearray\<close>. \<open>write_bytes\<close> reaches it after the callbacks; on a \<open>bytes\<close>
  memory it raises \<open>TypeError\<close>.\<close>

definition assign_slice :: "bytes \<Rightarrow> nat \<Rightarrow> bytes \<Rightarrow> bytes" where
  "assign_slice mem lo data = take lo mem @ data @ drop (lo + length data) mem"

definition write_bytes :: "virtual_register \<Rightarrow> int \<Rightarrow> bytes \<Rightarrow> virtual_register result" where
  "write_bytes r address data_bytes =
     (let byte_length = length data_bytes in
      if check_address_range r address byte_length then
        bind_res (write_callback_loop r data_bytes (py_range address (address + int byte_length)))
          (\<lambda>_. if memory_is_bytearray r
                then return_res
                       (r\<lparr>memory := assign_slice (memory r) (nat (address - start_address r))
                                      data_bytes\<rparr>)
                else raise_res TypeError)
      else raise_res VirtualRegisterOutOfRange)"

fun read_callback_loop :: "virtual_register \<Rightarrow> int list \<Rightarrow> cb_event list" where
  "read_callback_loop r [] = []"
| "read_callback_loop r (read_address # rest) =
     (case read_callbacks r read_address of
        None \<Rightarrow> read_callback_loop r rest
      | Some cb \<Rightarrow> ReadCallback cb read_address # read_callback_loop r rest)"

definition read_bytes :: "virtual_register \<Rightarrow> int \<Rightarrow> nat \<Rightarrow> bytes result" where
  "read_bytes r address byte_length =
     (if check_address_range r address byte_length then
        (read_callback_loop r (py_range address (address + int byte_length)),
         Inr (take byte_length (drop (nat (address - start_address r)) (memory r))))
      else raise_res VirtualRegisterOutOfRange)"

text \<open>\<open>merge\<close> returns its boolean result and the register \<open>self\<close> as it leaves it. The
  new memory of \<open>self\<close> is a copy of the memory of the fresh register \<open>merged\<close>, a
  \<open>bytearray\<close>.\<close>

definition merge :: "virtual_register \<Rightarrow> virtual_register \<Rightarrow> (bool \<times> virtual_register) result" where
  "merge self register =
     (case get_register_info register of
        (r_start_address, r_end_address, r_memory_size) \<Rightarrow>
          if is_neighbor self register \<or> is_intersect self register then
            (let start = min (start_address self) r_start_address;
                 mem_size = max (start_address self + int (memory_size self)) r_end_address - start;
                 merged = VirtualRegister (nat mem_size) start
             in bind_res (write_bytes merged (start_address self) (memory self))
                  (\<lambda>merged1. bind_res (write_bytes merged1 r_start_address (memory register))
                     (\<lambda>merged2. return_res
                        (True, self\<lparr>start_address := start, memory := memory merged2,
                                    memory_is_bytearray := memory_is_bytearray merged2\<rparr>))))
          else return_res (False, self))"

section \<open>RBCP server (sitcpy/rbcp_server.py)\<close>

text \<open>The header of a reply; \<open>struct.pack("8B", ...)\<close> raises \<open>struct.error\<close> when the id or
  the length is outside 0..255.\<close>

definition server_make_header :: "string \<Rightarrow> int \<Rightarrow> int \<Rightarrow> int \<Rightarrow> exception + bytes" where
  "server_make_header read_write packet_id register_address len =
     (let command_type =
            (if read_write = ''r'' then 0xc8
             else if read_write = ''w'' then 0x88
             else if read_write = ''re'' then 0xc9
             else if read_write = ''we'' then 0x89
             else 0 :: byte)
      in case pack_B packet_id of
           Inl e \<Rightarrow> Inl e
         | Inr pid \<Rightarrow>
             (case pack_B len of
                Inl e \<Rightarrow> Inl e
              | Inr n \<Rightarrow> Inr ([0xff, command_type, pid, n] @ address_bytes register_address)))"

record rbcp_server =
  registers :: "virtual_register list"
  error_short_message :: nat

definition RbcpServer_init :: rbcp_server where
  "RbcpServer_init =
     \<lparr>registers = [VirtualRegister 65536 0xFFFF0000], error_short_message = 0\<rparr>"

fun read_registers :: "virtual_register list \<Rightarrow> int \<Rightarrow> nat \<Rightarrow> bytes result" where
  "read_registers [] address len = raise_res VirtualRegisterOutOfRange"
| "read_registers (register # rest) address len =
     (case read_bytes register address len of
        (tr, Inr read_data) \<Rightarrow> (tr, Inr read_data)
      | (tr, Inl e) \<Rightarrow>
          if e = VirtualRegisterOutOfRange
          then bind_res (tr, Inr ()) (\<lambda>_. read_registers rest address len)
          else (tr, Inl e))"

text \<open>\<open>write_registers\<close> returns the data read back and the registers after the write.\<close>

fun write_registers ::
  "virtual_register list \<Rightarrow> int \<Rightarrow> bytes \<Rightarrow> (bytes \<times> virtual_register list) result" where
  "write_registers [] address write_data = raise_res VirtualRegisterOutOfRange"
| "write_registers (register # rest) address write_data =
     (case write_bytes register address write_data of
        (tr, Inr written) \<Rightarrow>
          (case read_bytes written address (length write_data) of
             (tr2, Inr read_data) \<Rightarrow> (tr @ tr2, Inr (read_data, written # rest))
           | (tr2, Inl e) \<Rightarrow>
               if e = VirtualRegisterOutOfRange
               then bind_res (tr @ tr2, Inr ())
                      (\<lambda>_. bind_res (write_registers rest address write_data)
                         (\<lambda>(read_data, rest'). return_res (read_data, written # rest')))
               else (tr @ tr2, Inl e))
      | (tr, Inl e) \<Rightarrow>
          if e = VirtualRegisterOutOfRange
          then bind_res (tr, Inr ())
                 (\<lambda>_. bind_res (write_registers rest address write_data)
                    (\<lambda>(read_data, rest'). return_res (read_data, register # rest')))
          else (tr, Inl e))"

text \<open>
  \<open>merge_registers\<close>. The inner loop tries to merge \<open>register1\<close> with each later register;
  the outer loop takes each register as \<open>register1\<close> in turn. At the first merge the
  absorbed register is deleted and the whole procedure starts again.
\<close>

fun merge_inner ::
  "virtual_register \<Rightarrow> virtual_register list
     \<Rightarrow> (virtual_register \<times> virtual_register list) option result" where
  "merge_inner register1 [] = return_res None"
| "merge_inner register1 (register2 # rest) =
     bind_res (merge register1 register2)
       (\<lambda>(merged, register1').
          if merged then return_res (Some (register1', rest))
          else bind_res (merge_inner register1' rest)
                 (\<lambda>found. return_res
                    (case found of
                       None \<Rightarrow> None
                     | Some (m, rest') \<Rightarrow> Some (m, register2 # rest'))))"

fun merge_outer :: "virtual_register list \<Rightarrow> virtual_register list option result" where
  "merge_outer [] = return_res None"
| "merge_outer (register1 # rest) =
     bind_res (merge_inner register1 rest)
       (\<lambda>found.
          case found of
            Some (m, rest') \<Rightarrow> return_res (Some (m # rest'))
          | None \<Rightarrow>
              bind_res (merge_outer rest)
                (\<lambda>found'. return_res
                   (case found' of None \<Rightarrow> None | Some rest' \<Rightarrow> Some (register1 # rest'))))"

text \<open>
  \<open>merge_registers\<close> calls itself once for every merge. \<open>depth\<close> is the number of nested
  calls of \<open>merge_registers\<close> that the interpreter's recursion limit still allows when
  the method is called; the call beyond it raises \<open>RecursionError\<close>, which no frame
  catches. The frames that a call needs besides its own, for \<open>merge\<close> and its logging,
  are not counted separately. The registers are changed in place, so the function
  returns them as they are left, together with the exception if one was raised.
\<close>

fun merge_registers ::
  "nat \<Rightarrow> virtual_register list \<Rightarrow> cb_event list \<times> exception option \<times> virtual_register list"
where
  "merge_registers depth rs =
     (if depth = 0 then ([], Some RecursionError, rs)
      else if length rs \<le> 1 then ([], None, rs)
      else (case merge_outer rs of
              (tr, Inl e) \<Rightarrow> (tr, Some e, rs)
            | (tr, Inr None) \<Rightarrow> (tr, None, rs)
            | (tr, Inr (Some rs')) \<Rightarrow>
                (case merge_registers (depth - 1) rs' of (tr', res) \<Rightarrow> (tr @ tr', res))))"

declare merge_registers.simps [simp del]

text \<open>\<open>struct.unpack(">I", ...)\<close> of four bytes; any other length raises \<open>struct.error\<close>.\<close>

definition unpack_I :: "bytes \<Rightarrow> exception + int" where
  "unpack_I bs =
     (case bs of
        [b0, b1, b2, b3] \<Rightarrow> Inr (uint b0 * 2 ^ 24 + uint b1 * 2 ^ 16 + uint b2 * 2 ^ 8 + uint b3)
      | _ \<Rightarrow> Inl StructError)"

text \<open>
  The body of the server loop for one received datagram: the datagram is dropped or a
  reply is sent. An exception other than \<open>VirtualRegisterOutOfRange\<close> leaves the loop.
\<close>

datatype server_action = Dropped | Reply bytes

definition send_reply ::
  "cb_event list \<Rightarrow> exception + bytes \<Rightarrow> bytes \<Rightarrow> rbcp_server
     \<Rightarrow> (server_action \<times> rbcp_server) result" where
  "send_reply tr header payload srv =
     (case header of
        Inl e \<Rightarrow> (tr, Inl e)
      | Inr h \<Rightarrow> (tr, Inr (Reply (h @ payload), srv)))"

definition handle_datagram :: "rbcp_server \<Rightarrow> bytes \<Rightarrow> (server_action \<times> rbcp_server) result" where
  "handle_datagram srv rbcp_msg =
     (if length rbcp_msg < 8
      then return_res (Dropped, srv\<lparr>error_short_message := error_short_message srv + 1\<rparr>)
      else if rbcp_msg ! 0 \<noteq> 0xff then return_res (Dropped, srv)
      else if rbcp_msg ! 1 \<noteq> 0xc0 \<and> rbcp_msg ! 1 \<noteq> 0x80 then return_res (Dropped, srv)
      else
        (let packet_read = (rbcp_msg ! 1 = 0xc0);
             packet_id = uint (rbcp_msg ! 2);
             packet_length = unat (rbcp_msg ! 3);
             packet_data = drop 8 rbcp_msg
         in case unpack_I (take 4 (drop 4 rbcp_msg)) of
              Inl e \<Rightarrow> raise_res e
            | Inr packet_address \<Rightarrow>
                if packet_read then
                  (case read_registers (registers srv) packet_address packet_length of
                     (tr, Inr read_data) \<Rightarrow>
                       send_reply tr
                         (server_make_header ''r'' packet_id packet_address (int packet_length))
                         read_data srv
                   | (tr, Inl e) \<Rightarrow>
                       if e = VirtualRegisterOutOfRange
                       then send_reply tr
                              (server_make_header ''re'' packet_id packet_address
                                 (int (length packet_data)))
                              packet_data srv
                       else (tr, Inl e))
                else
                  (case write_registers (registers srv) packet_address
                          (take packet_length packet_data) of
                     (tr, Inr (read_back, regs)) \<Rightarrow>
                       send_reply tr
                         (server_make_header ''w'' packet_id packet_address (int packet_length))
                         packet_data (srv\<lparr>registers := regs\<rparr>)
                   | (tr, Inl e) \<Rightarrow>
                       if e = VirtualRegisterOutOfRange
                       then send_reply tr
                              (server_make_header ''we'' packet_id packet_address
                                 (int (length packet_data)))
                              packet_data srv
                       else (tr, Inl e))))"




text \<open>The memory that \<open>merge\<close> builds: zeroes over the whole span, then the memory of
  \<open>self\<close>, then the memory of the absorbed register written over it.\<close>

definition merged_memory :: "virtual_register \<Rightarrow> virtual_register \<Rightarrow> bytes" where
  "merged_memory s r =
     (let lo = min (start_address s) (start_address r);
          hi = max (start_address s + int (length (memory s)))
                   (start_address r + int (length (memory r)))
      in assign_slice
           (assign_slice (replicate (nat (hi - lo)) 0) (nat (start_address s - lo)) (memory s))
           (nat (start_address r - lo)) (memory r))"

text \<open>Vocabulary for the property of \<open>wait\<close>: the \<open>State\<close> object as the waiting thread
  finds it at each test of its loop, the first test included.\<close>

fun wait_states :: "thread \<Rightarrow> state_obj \<Rightarrow> wait_round list \<Rightarrow> state_obj list" where
  "wait_states me s [] = [s]"
| "wait_states me s (r # rs) = s # wait_states me (cond_wait me s (transits r)) rs"

section \<open>Properties of the RBCP client\<close>

lemma length_address_bytes: "length (address_bytes a) = 4"
  by (simp add: address_bytes_def)

text \<open>
  C2 (as stated, refuted): the claim accepts every pair with
  \<open>address + length \<le> 2^32\<close>, in particular address \<open>0xFFFFFFFF\<close> with length 1.
  The source rejects that pair: its bound is \<open>address + length \<le> 0xFFFFFFFF\<close>.
\<close>

theorem make_header_boundary_counterexample:
  "make_header HEADER_READ (PyInt 0xffffffff) (PyInt 1) 0 = Inl ValueError
   \<and> (0xffffffff :: int) + 1 \<le> 2 ^ 32"
  by (simp add: make_header_def)

text \<open>
  C2 (amended): for a packet id in 0..255, \<open>make_header\<close> returns a header of 8 bytes
  exactly for the integer pairs with \<open>0 \<le> address \<le> 0xFFFFFFFF\<close>,
  \<open>0 \<le> length \<le> 255\<close> and \<open>address + length \<le> 0xFFFFFFFF\<close>; for every other pair
  (a non-integer, a negative value, a length above 255, an address above
  \<open>0xFFFFFFFF\<close>, or a sum above \<open>0xFFFFFFFF\<close>) it fails with \<open>ValueError\<close>.
\<close>

theorem make_header_accepts_iff:
  assumes "0 \<le> packet_id" and "packet_id \<le> 255"
  shows "make_header rw address len packet_id =
           (if (\<exists>a n. address = PyInt a \<and> len = PyInt n \<and> 0 \<le> a \<and> a \<le> 0xffffffff
                      \<and> 0 \<le> n \<and> n \<le> 255 \<and> a + n \<le> 0xffffffff)
            then Inr ([HEADER_VERTYPE, if rw = HEADER_READ then 0xc0 else 0x80,
                       of_int packet_id,
                       of_int (case len of PyInt n \<Rightarrow> n | PyNonInt \<Rightarrow> 0)]
                      @ address_bytes (case address of PyInt a \<Rightarrow> a | PyNonInt \<Rightarrow> 0))
            else Inl ValueError)
         \<and> (case make_header rw address len packet_id of
               Inr h \<Rightarrow> length h = 8
             | Inl e \<Rightarrow> e = ValueError)"
  using assms
  by (auto simp: make_header_def pack_B_def length_address_bytes
           split: pyval.splits sum.splits if_splits)

theorem make_header_accepts_iff_witness:
  "make_header HEADER_READ (PyInt 0xffffff00) (PyInt 255) 7
     = Inr [0xff, 0xc0, 7, 0xff, 0xff, 0xff, 0xff, 0x00]
   \<and> make_header HEADER_WRITE (PyInt 0xffffff01) (PyInt 255) 7 = Inl ValueError"
proof -
  have id_ok: "(0::int) \<le> 7" "(7::int) \<le> 255" by simp_all
  show ?thesis
    using make_header_accepts_iff [OF id_ok, of HEADER_READ "PyInt 0xffffff00" "PyInt 255"]
          make_header_accepts_iff [OF id_ok, of HEADER_WRITE "PyInt 0xffffff01" "PyInt 255"]
    by (simp add: address_bytes_def HEADER_READ_def HEADER_WRITE_def HEADER_VERTYPE_def)
qed

text \<open>
  C3 (as stated, refuted): a reply of 8 bytes with version \<open>0xFF\<close>, the bus-error bit set
  and an id that differs from the expected one raises \<open>RbcpBusError\<close>, not the id-mismatch
  \<open>RbcpError\<close>: the source tests the bus-error bit before the id.
\<close>

theorem check_packet_id_mismatch_counterexample:
  "check_packet [0xff, 0xc9, 5, 0, 0, 0, 0, 0] 7 = Inl RbcpBusError
   \<and> check_packet [0xff, 0xc9, 5, 0, 0, 0, 0, 0] 7 \<noteq> Inl (RbcpError PacketIdMismatch)"
  by (simp add: check_packet_def HEADER_SIZE_def HEADER_VERTYPE_def)

text \<open>
  C3 (amended): \<open>check_packet\<close> fails with a plain \<open>RbcpError\<close> when the packet is shorter
  than 8 bytes or its version byte differs from \<open>0xFF\<close>; otherwise it fails with
  \<open>RbcpBusError\<close> when the low bit of the command byte is 1, whatever the id byte is;
  otherwise it fails with the id-mismatch \<open>RbcpError\<close> when the id byte differs from the
  expected id; otherwise it accepts.
\<close>

theorem check_packet_cases:
  "check_packet packet wait_id =
     (if length packet < 8 then Inl (RbcpError (HeaderTooShort (length packet) 8))
      else if packet ! 0 \<noteq> 0xff then Inl (RbcpError VersionMismatch)
      else if (packet ! 1) AND 1 = 1 then Inl RbcpBusError
      else if uint (packet ! 2) \<noteq> wait_id then Inl (RbcpError PacketIdMismatch)
      else Inr ())"
  by (simp add: check_packet_def HEADER_SIZE_def HEADER_VERTYPE_def)

theorem check_packet_cases_witness:
  "check_packet [0xff, 0xc8, 5, 0, 0, 0, 0, 0] 7 = Inl (RbcpError PacketIdMismatch)
   \<and> check_packet [0xff, 0xc8, 7, 0, 0, 0, 0, 0] 7 = Inr ()
   \<and> check_packet [0xff, 0x89, 7, 0, 0, 0, 0, 0] 7 = Inl RbcpBusError
   \<and> check_packet [0xfe, 0xc8, 7, 0, 0, 0, 0, 0] 7 = Inl (RbcpError VersionMismatch)
   \<and> check_packet [0xff, 0xc8, 7] 7 = Inl (RbcpError (HeaderTooShort 3 8))"
  using check_packet_cases [of "[0xff, 0xc8, 5, 0, 0, 0, 0, 0]" 7]
        check_packet_cases [of "[0xff, 0xc8, 7, 0, 0, 0, 0, 0]" 7]
        check_packet_cases [of "[0xff, 0x89, 7, 0, 0, 0, 0, 0]" 7]
        check_packet_cases [of "[0xfe, 0xc8, 7, 0, 0, 0, 0, 0]" 7]
        check_packet_cases [of "[0xff, 0xc8, 7]" 7]
  by simp

section \<open>Properties of the state primitive\<close>

lemma transit_cases:
  "transit s n =
     (if n > state_value s
      then (True, cond_waiters s, s\<lparr>state_value := n, cond_waiters := {}\<rparr>)
      else (False, {}, s))"
  by (simp add: transit_def notify_all_def)

lemma transit_value:
  "state_value (snd (snd (transit s n))) = max (state_value s) n"
  by (simp add: transit_cases)

lemma observed_lower_bound:
  "\<forall>v \<in> set (observed s ns). state_value s \<le> v"
proof (induction ns arbitrary: s)
  case Nil
  then show ?case by simp
next
  case (Cons n ns)
  have "state_value s \<le> state_value (snd (snd (transit s n)))"
    by (simp add: transit_value)
  then show ?case using Cons [of "snd (snd (transit s n))"] by auto
qed

lemma observed_sorted: "sorted (observed s ns)"
proof (induction ns arbitrary: s)
  case Nil
  then show ?case by simp
next
  case (Cons n ns)
  have "\<forall>v \<in> set (observed (snd (snd (transit s n))) ns). state_value s \<le> v"
    using observed_lower_bound [of "snd (snd (transit s n))" ns]
    by (auto simp: transit_value)
  then show ?case using Cons by simp
qed

lemma length_wait_states: "length (wait_states me s rs) = Suc (length rs)"
  by (induction rs arbitrary: s) simp_all

text \<open>The loop of \<open>wait\<close> in closed form. It returns \<open>True\<close> exactly when some test of the
  loop finds the state at or beyond the target and no earlier iteration has read a
  clock value beyond \<open>end\<close>; it returns \<open>False\<close> exactly when a timeout was given and
  some iteration reads a clock value beyond \<open>end\<close> while the state has been below the
  target at every test so far.\<close>

lemma wait_loop_true_iff:
  "fst (wait_loop me target timeout end_time s rs) = Some True \<longleftrightarrow>
     (\<exists>k \<le> length rs. state_value (wait_states me s rs ! k) \<ge> target
        \<and> (\<forall>j < k. state_value (wait_states me s rs ! j) < target)
        \<and> (\<forall>j < k. timeout = None \<or> clock (rs ! j) \<le> end_time))"
proof (induction rs arbitrary: s)
  case Nil
  then show ?case by simp
next
  case (Cons r rs)
  let ?s1 = "cond_wait me s (transits r)"
  show ?case
  proof (cases "state_value s \<ge> target")
    case True
    then have "fst (wait_loop me target timeout end_time s (r # rs)) = Some True" by simp
    moreover have "\<exists>k \<le> length (r # rs). state_value (wait_states me s (r # rs) ! k) \<ge> target
        \<and> (\<forall>j < k. state_value (wait_states me s (r # rs) ! j) < target)
        \<and> (\<forall>j < k. timeout = None \<or> clock ((r # rs) ! j) \<le> end_time)"
      using True by (intro exI [of _ 0]) simp
    ultimately show ?thesis by simp
  next
    case False
    have shift: "(\<exists>k \<le> length (r # rs). state_value (wait_states me s (r # rs) ! k) \<ge> target
        \<and> (\<forall>j < k. state_value (wait_states me s (r # rs) ! j) < target)
        \<and> (\<forall>j < k. timeout = None \<or> clock ((r # rs) ! j) \<le> end_time))
      \<longleftrightarrow> ((timeout = None \<or> clock r \<le> end_time)
           \<and> (\<exists>k \<le> length rs. state_value (wait_states me ?s1 rs ! k) \<ge> target
                 \<and> (\<forall>j < k. state_value (wait_states me ?s1 rs ! j) < target)
                 \<and> (\<forall>j < k. timeout = None \<or> clock (rs ! j) \<le> end_time)))"
      (is "?L \<longleftrightarrow> ?R")
    proof
      assume ?L
      then obtain k where k: "k \<le> length (r # rs)"
        "state_value (wait_states me s (r # rs) ! k) \<ge> target"
        "\<forall>j < k. state_value (wait_states me s (r # rs) ! j) < target"
        "\<forall>j < k. timeout = None \<or> clock ((r # rs) ! j) \<le> end_time"
        by blast
      have "k \<noteq> 0" using k(2) False by (cases k) auto
      then obtain k' where k': "k = Suc k'" by (cases k) auto
      have "timeout = None \<or> clock r \<le> end_time" using k(4) k' by auto
      moreover have "k' \<le> length rs" using k(1) k' by simp
      moreover have "state_value (wait_states me ?s1 rs ! k') \<ge> target" using k(2) k' by simp
      moreover have "\<forall>j < k'. state_value (wait_states me ?s1 rs ! j) < target"
        using k(3) k' by auto
      moreover have "\<forall>j < k'. timeout = None \<or> clock (rs ! j) \<le> end_time"
        using k(4) k' by auto
      ultimately show ?R by blast
    next
      assume ?R
      then obtain k where k: "timeout = None \<or> clock r \<le> end_time" "k \<le> length rs"
        "state_value (wait_states me ?s1 rs ! k) \<ge> target"
        "\<forall>j < k. state_value (wait_states me ?s1 rs ! j) < target"
        "\<forall>j < k. timeout = None \<or> clock (rs ! j) \<le> end_time"
        by blast
      have a: "\<forall>j < Suc k. state_value (wait_states me s (r # rs) ! j) < target"
      proof (intro allI impI)
        fix j assume "j < Suc k"
        then show "state_value (wait_states me s (r # rs) ! j) < target"
          using k(4) False by (cases j) auto
      qed
      have b: "\<forall>j < Suc k. timeout = None \<or> clock ((r # rs) ! j) \<le> end_time"
      proof (intro allI impI)
        fix j assume "j < Suc k"
        then show "timeout = None \<or> clock ((r # rs) ! j) \<le> end_time"
          using k(1,5) by (cases j) auto
      qed
      show ?L using k(2,3) a b by (intro exI [of _ "Suc k"]) simp
    qed
    have "fst (wait_loop me target timeout end_time s (r # rs)) = Some True
            \<longleftrightarrow> (timeout = None \<or> clock r \<le> end_time)
                \<and> fst (wait_loop me target timeout end_time ?s1 rs) = Some True"
      using False by (cases timeout) (auto simp: Let_def)
    then show ?thesis unfolding shift Cons.IH by simp
  qed
qed

lemma wait_loop_false_iff:
  "fst (wait_loop me target timeout end_time s rs) = Some False \<longleftrightarrow>
     (timeout \<noteq> None
      \<and> (\<exists>k < length rs. clock (rs ! k) > end_time
            \<and> (\<forall>j \<le> k. state_value (wait_states me s rs ! j) < target)
            \<and> (\<forall>j < k. clock (rs ! j) \<le> end_time)))"
proof (induction rs arbitrary: s)
  case Nil
  then show ?case by simp
next
  case (Cons r rs)
  let ?s1 = "cond_wait me s (transits r)"
  show ?case
  proof (cases "state_value s \<ge> target")
    case True
    then have "fst (wait_loop me target timeout end_time s (r # rs)) = Some True" by simp
    moreover have "\<not> (\<exists>k < length (r # rs). clock ((r # rs) ! k) > end_time
            \<and> (\<forall>j \<le> k. state_value (wait_states me s (r # rs) ! j) < target)
            \<and> (\<forall>j < k. clock ((r # rs) ! j) \<le> end_time))"
    proof
      assume "\<exists>k < length (r # rs). clock ((r # rs) ! k) > end_time
            \<and> (\<forall>j \<le> k. state_value (wait_states me s (r # rs) ! j) < target)
            \<and> (\<forall>j < k. clock ((r # rs) ! j) \<le> end_time)"
      then obtain k where "\<forall>j \<le> k. state_value (wait_states me s (r # rs) ! j) < target" by blast
      then have "state_value (wait_states me s (r # rs) ! 0) < target" by blast
      then show False using True by simp
    qed
    ultimately show ?thesis by simp
  next
    case False
    show ?thesis
    proof (cases timeout)
      case None
      then have "fst (wait_loop me target timeout end_time s (r # rs))
                   = fst (wait_loop me target timeout end_time ?s1 rs)"
        using False by simp
      then show ?thesis using Cons.IH [of ?s1] None by simp
    next
      case (Some t)
      show ?thesis
      proof (cases "clock r > end_time")
        case True
        then have "fst (wait_loop me target timeout end_time s (r # rs)) = Some False"
          using False Some by (simp add: Let_def)
        moreover have "\<exists>k < length (r # rs). clock ((r # rs) ! k) > end_time
            \<and> (\<forall>j \<le> k. state_value (wait_states me s (r # rs) ! j) < target)
            \<and> (\<forall>j < k. clock ((r # rs) ! j) \<le> end_time)"
          using True False by (intro exI [of _ 0]) simp
        ultimately show ?thesis using Some by simp
      next
        case late: False
        have shift: "(\<exists>k < length (r # rs). clock ((r # rs) ! k) > end_time
            \<and> (\<forall>j \<le> k. state_value (wait_states me s (r # rs) ! j) < target)
            \<and> (\<forall>j < k. clock ((r # rs) ! j) \<le> end_time))
          \<longleftrightarrow> (\<exists>k < length rs. clock (rs ! k) > end_time
            \<and> (\<forall>j \<le> k. state_value (wait_states me ?s1 rs ! j) < target)
            \<and> (\<forall>j < k. clock (rs ! j) \<le> end_time))"
          (is "?L \<longleftrightarrow> ?R")
        proof
          assume ?L
          then obtain k where k: "k < length (r # rs)" "clock ((r # rs) ! k) > end_time"
            "\<forall>j \<le> k. state_value (wait_states me s (r # rs) ! j) < target"
            "\<forall>j < k. clock ((r # rs) ! j) \<le> end_time"
            by blast
          have "k \<noteq> 0" using k(2) late by (cases k) auto
          then obtain k' where k': "k = Suc k'" by (cases k) auto
          have "k' < length rs" "clock (rs ! k') > end_time" using k(1,2) k' by simp_all
          moreover have "\<forall>j \<le> k'. state_value (wait_states me ?s1 rs ! j) < target"
          proof (intro allI impI)
            fix j assume "j \<le> k'"
            then have "Suc j \<le> k" using k' by simp
            then show "state_value (wait_states me ?s1 rs ! j) < target"
              using k(3) [rule_format, of "Suc j"] by simp
          qed
          moreover have "\<forall>j < k'. clock (rs ! j) \<le> end_time"
          proof (intro allI impI)
            fix j assume "j < k'"
            then have "Suc j < k" using k' by simp
            then show "clock (rs ! j) \<le> end_time"
              using k(4) [rule_format, of "Suc j"] by simp
          qed
          ultimately show ?R by blast
        next
          assume ?R
          then obtain k where k: "k < length rs" "clock (rs ! k) > end_time"
            "\<forall>j \<le> k. state_value (wait_states me ?s1 rs ! j) < target"
            "\<forall>j < k. clock (rs ! j) \<le> end_time"
            by blast
          have a: "\<forall>j \<le> Suc k. state_value (wait_states me s (r # rs) ! j) < target"
          proof (intro allI impI)
            fix j assume "j \<le> Suc k"
            then show "state_value (wait_states me s (r # rs) ! j) < target"
              using k(3) False by (cases j) auto
          qed
          have b: "\<forall>j < Suc k. clock ((r # rs) ! j) \<le> end_time"
          proof (intro allI impI)
            fix j assume "j < Suc k"
            then show "clock ((r # rs) ! j) \<le> end_time"
              using k(4) late by (cases j) auto
          qed
          show ?L using k(1,2) a b by (intro exI [of _ "Suc k"]) simp
        qed
        have "fst (wait_loop me target timeout end_time s (r # rs))
                = fst (wait_loop me target timeout end_time ?s1 rs)"
          using False Some late by (simp add: Let_def)
        then show ?thesis unfolding shift using Cons.IH [of ?s1] by simp
      qed
    qed
  qed
qed

lemma transit_all_value: "state_value s \<le> state_value (transit_all s ns)"
proof (induction ns arbitrary: s)
  case Nil
  then show ?case by simp
next
  case (Cons n ns)
  have "state_value s \<le> state_value (snd (snd (transit s n)))" by (simp add: transit_value)
  also have "\<dots> \<le> state_value (transit_all (snd (snd (transit s n))) ns)" by (rule Cons)
  finally show ?case by simp
qed

lemma cond_wait_value: "state_value s \<le> state_value (cond_wait me s ns)"
  using transit_all_value [of "s\<lparr>cond_waiters := insert me (cond_waiters s)\<rparr>" ns]
  by (simp add: cond_wait_def Let_def)

lemma wait_states_lower_bound:
  "\<forall>x \<in> set (wait_states me s rs). state_value s \<le> state_value x"
proof (induction rs arbitrary: s)
  case Nil
  then show ?case by simp
next
  case (Cons r rs)
  show ?case
    using Cons [of "cond_wait me s (transits r)"] cond_wait_value [of s me "transits r"]
    by auto
qed

lemma wait_states_sorted: "sorted (map state_value (wait_states me s rs))"
proof (induction rs arbitrary: s)
  case Nil
  then show ?case by simp
next
  case (Cons r rs)
  have "\<forall>x \<in> set (wait_states me (cond_wait me s (transits r)) rs).
          state_value s \<le> state_value x"
    using wait_states_lower_bound [of me "cond_wait me s (transits r)" rs]
          cond_wait_value [of s me "transits r"]
    by auto
  then show ?case using Cons by simp
qed

text \<open>A thread blocked on the condition is among the threads that a successful
  \<open>transit\<close> wakes.\<close>

lemma transit_wakes_waiter:
  "me \<in> cond_waiters s \<Longrightarrow> n > state_value s \<Longrightarrow> me \<in> fst (snd (transit s n))"
  by (simp add: transit_cases)

text \<open>
  C9: \<open>transit new\<close> sets the state and returns true exactly when \<open>new\<close> is greater than
  the current value; it then wakes every thread waiting on the condition. Otherwise it
  returns false, wakes nobody and changes nothing. Over any sequence of \<open>transit\<close> calls
  the state values seen are non-decreasing, and so are the values that a waiting thread
  sees at the successive tests of its loop. \<open>wait\<close> returns true exactly when one of its
  tests finds the state at or beyond the target before any of its clock readings is
  beyond the end of the timeout; it returns false exactly when a timeout was given and
  a clock reading is beyond its end while every test so far has found the state below
  the target. Without a timeout it never returns false: it waits until the state
  reaches the target.
\<close>

theorem state_transit_wait:
  "transit s new =
     (if new > state_value s
      then (True, cond_waiters s, s\<lparr>state_value := new, cond_waiters := {}\<rparr>)
      else (False, {}, s))
   \<and> sorted (observed s news)
   \<and> sorted (map state_value (wait_states me s rounds))
   \<and> (fst (wait me s target timeout start rounds) = Some True \<longleftrightarrow>
        (\<exists>k \<le> length rounds.
           state_value (wait_states me s rounds ! k) \<ge> target
           \<and> (\<forall>j < k. timeout = None
                  \<or> clock (rounds ! j) \<le> start + (case timeout of None \<Rightarrow> 0 | Some t \<Rightarrow> t))))
   \<and> (fst (wait me s target timeout start rounds) = Some False \<longleftrightarrow>
        (timeout \<noteq> None
         \<and> (\<exists>k < length rounds.
               clock (rounds ! k) > start + (case timeout of None \<Rightarrow> 0 | Some t \<Rightarrow> t)
               \<and> (\<forall>j \<le> k. state_value (wait_states me s rounds ! j) < target)
               \<and> (\<forall>j < k. clock (rounds ! j)
                             \<le> start + (case timeout of None \<Rightarrow> 0 | Some t \<Rightarrow> t)))))
   \<and> (timeout = None \<longrightarrow> fst (wait me s target timeout start rounds) \<noteq> Some False)"
proof -
  define end_time where "end_time = start + (case timeout of None \<Rightarrow> 0 | Some t \<Rightarrow> t)"
  have w: "wait me s target timeout start rounds = wait_loop me target timeout end_time s rounds"
    by (simp add: wait_def end_time_def)
  have t: "fst (wait me s target timeout start rounds) = Some True \<longleftrightarrow>
        (\<exists>k \<le> length rounds.
           state_value (wait_states me s rounds ! k) \<ge> target
           \<and> (\<forall>j < k. timeout = None \<or> clock (rounds ! j) \<le> end_time))"
    (is "?A \<longleftrightarrow> ?B")
  proof
    assume ?A
    then show ?B unfolding w wait_loop_true_iff by blast
  next
    assume ?B
    then obtain k where k: "k \<le> length rounds"
      "state_value (wait_states me s rounds ! k) \<ge> target"
      "\<forall>j < k. timeout = None \<or> clock (rounds ! j) \<le> end_time"
      by blast
    define k0 where "k0 = (LEAST i. state_value (wait_states me s rounds ! i) \<ge> target)"
    have reach: "state_value (wait_states me s rounds ! k0) \<ge> target"
      unfolding k0_def using k(2) by (rule LeastI)
    have le: "k0 \<le> k" unfolding k0_def using k(2) by (rule Least_le)
    have before: "\<forall>j < k0. state_value (wait_states me s rounds ! j) < target"
    proof (intro allI impI)
      fix j assume "j < k0"
      then have "\<not> state_value (wait_states me s rounds ! j) \<ge> target"
        unfolding k0_def by (rule not_less_Least)
      then show "state_value (wait_states me s rounds ! j) < target" by simp
    qed
    have "\<forall>j < k0. timeout = None \<or> clock (rounds ! j) \<le> end_time"
      using k(3) le by auto
    then show ?A
      unfolding w wait_loop_true_iff using reach before le k(1)
      by (intro exI [of _ k0]) simp
  qed
  have f: "fst (wait me s target timeout start rounds) = Some False \<longleftrightarrow>
        (timeout \<noteq> None
         \<and> (\<exists>k < length rounds. clock (rounds ! k) > end_time
               \<and> (\<forall>j \<le> k. state_value (wait_states me s rounds ! j) < target)
               \<and> (\<forall>j < k. clock (rounds ! j) \<le> end_time)))"
    unfolding w by (rule wait_loop_false_iff)
  have n: "timeout = None \<longrightarrow> fst (wait me s target timeout start rounds) \<noteq> Some False"
    using f by blast
  show ?thesis
    using transit_cases [of s new] observed_sorted [of s news] wait_states_sorted [of me s rounds]
          t f n
    unfolding end_time_def by blast
qed

theorem state_transit_wait_witness:
  "transit (State_init 1) 2 = (True, {}, \<lparr>state_value = 2, cond_waiters = {}\<rparr>)
   \<and> transit \<lparr>state_value = 1, cond_waiters = {5, 6}\<rparr> 3
       = (True, {5, 6}, \<lparr>state_value = 3, cond_waiters = {}\<rparr>)
   \<and> transit (State_init 2) 1 = (False, {}, State_init 2)
   \<and> observed (State_init 0) [1, 3, 2, 4] = [0, 1, 3, 3, 4]
   \<and> fst (wait 0 (State_init 0) 2 (Some 1) 10
            [\<lparr>clock = 10.2, transits = [1]\<rparr>, \<lparr>clock = 10.5, transits = [2]\<rparr>,
             \<lparr>clock = 12, transits = []\<rparr>]) = Some True
   \<and> fst (wait 0 (State_init 0) 2 (Some 1) 10
            [\<lparr>clock = 10.2, transits = [1]\<rparr>, \<lparr>clock = 11.5, transits = [2]\<rparr>]) = Some False
   \<and> fst (wait 0 (State_init 0) 2 None 10
            [\<lparr>clock = 10.2, transits = [1]\<rparr>, \<lparr>clock = 11.5, transits = [1]\<rparr>]) = None"
  using state_transit_wait [of "State_init 1" 2 "[]" 0 "[]" 0 None 0]
        state_transit_wait [of "\<lparr>state_value = 1, cond_waiters = {5, 6}\<rparr>" 3 "[]" 0 "[]" 0 None 0]
        state_transit_wait [of "State_init 2" 1 "[]" 0 "[]" 0 None 0]
  by (simp add: State_init_def wait_def cond_wait_def transit_cases Let_def)

section \<open>Properties of the DAQ client\<close>

lemma daq_data_append: "daq_data (xs @ ys) = daq_data xs @ daq_data ys"
  by (induction xs rule: daq_data.induct) simp_all

lemma on_running_tick_keeps:
  "byte_array (on_running_tick c) = byte_array c"
  "daq_data (calls (on_running_tick c)) = daq_data (calls c)"
  by (simp_all add: on_running_tick_def Let_def daq_data_append)

lemma mod_chunk_positive:
  fixes d n :: nat
  assumes "1 \<le> d" and "d \<le> n"
  shows "0 < n - n mod d" and "d dvd (n - n mod d)"
proof -
  have "n mod d < d" using assms by simp
  then show "0 < n - n mod d" using assms by linarith
  show "d dvd (n - n mod d)" by (simp add: dvd_minus_mod)
qed

text \<open>One receive: what is handed to the handler is aligned, and together with the new
  partial buffer it is the old partial buffer followed by the received bytes.\<close>

lemma daq_receive_step:
  assumes "1 \<le> d" and "daq_receive d c chunk = (out, c1)"
  shows "out = Continue"
    and "concat (daq_data (calls c1)) @ byte_array c1
           = concat (daq_data (calls c)) @ byte_array c @ chunk"
    and "length (byte_array c1) < d"
    and "(\<forall>b \<in> set (daq_data (calls c)). 0 < length b \<and> d dvd length b)
           \<Longrightarrow> (\<forall>b \<in> set (daq_data (calls c1)). 0 < length b \<and> d dvd length b)"
proof -
  define ba where "ba = byte_array c @ chunk"
  define len where "len = length ba"
  define rest where "rest = len mod d"
  have d0: "d \<noteq> 0" using assms(1) by simp
  have unfolded: "daq_receive d c chunk =
     (if d \<le> len then
        (if rest = 0
         then (Continue, c\<lparr>byte_array := [], calls := calls c @ [OnDaqData ba],
                            client_data_bytes := client_data_bytes c + len\<rparr>)
         else (Continue, c\<lparr>byte_array := drop (len - rest) ba,
                            calls := calls c @ [OnDaqData (take (len - rest) ba)],
                            client_data_bytes := client_data_bytes c + (len - rest)\<rparr>))
      else (Continue, c\<lparr>byte_array := ba\<rparr>))"
    using d0 by (simp add: daq_receive_def Let_def ba_def len_def rest_def)
  have split: "concat (daq_data (calls c)) @ byte_array c @ chunk
                 = concat (daq_data (calls c)) @ ba"
    by (simp add: ba_def)
  consider (short) "len < d" | (exact) "d \<le> len" "rest = 0" | (partial) "d \<le> len" "rest \<noteq> 0"
    by linarith
  then have "out = Continue
    \<and> concat (daq_data (calls c1)) @ byte_array c1
           = concat (daq_data (calls c)) @ ba
    \<and> length (byte_array c1) < d
    \<and> ((\<forall>b \<in> set (daq_data (calls c)). 0 < length b \<and> d dvd length b)
           \<longrightarrow> (\<forall>b \<in> set (daq_data (calls c1)). 0 < length b \<and> d dvd length b))"
  proof cases
    case short
    then show ?thesis
      using assms(2) unfolded by (auto simp: len_def)
  next
    case exact
    then have c1: "c1 = c\<lparr>byte_array := [], calls := calls c @ [OnDaqData ba],
                           client_data_bytes := client_data_bytes c + len\<rparr>" "out = Continue"
      using assms(2) unfolded by auto
    have "0 < length ba" "d dvd length ba"
      using exact assms(1) by (auto simp: dvd_eq_mod_eq_0 len_def rest_def)
    then show ?thesis
      using c1 assms(1) by (auto simp: daq_data_append)
  next
    case partial
    then have c1: "c1 = c\<lparr>byte_array := drop (len - rest) ba,
                           calls := calls c @ [OnDaqData (take (len - rest) ba)],
                           client_data_bytes := client_data_bytes c + (len - rest)\<rparr>" "out = Continue"
      using assms(2) unfolded by auto
    have pos: "0 < len - rest" and dv: "d dvd (len - rest)"
      using mod_chunk_positive [OF assms(1) partial(1)] by (simp_all add: rest_def)
    have lt: "rest < d" using d0 by (simp add: rest_def)
    have le: "rest \<le> len" unfolding rest_def by (rule mod_less_eq_dividend)
    have len_take: "length (take (len - rest) ba) = len - rest" by (simp add: len_def)
    have len_drop: "length (drop (len - rest) ba) = rest"
      using le by (simp add: len_def)
    show ?thesis
      unfolding c1 using pos dv lt len_drop len_take
      by (auto simp: daq_data_append)
  qed
  then show "out = Continue"
    and "concat (daq_data (calls c1)) @ byte_array c1
           = concat (daq_data (calls c)) @ byte_array c @ chunk"
    and "length (byte_array c1) < d"
    and "(\<forall>b \<in> set (daq_data (calls c)). 0 < length b \<and> d dvd length b)
           \<Longrightarrow> (\<forall>b \<in> set (daq_data (calls c1)). 0 < length b \<and> d dvd length b)"
    unfolding split by blast+
qed

lemma daq_loop_invariant:
  assumes "1 \<le> d"
    and "daq_loop d c evs = (out, c')"
    and "length (byte_array c) < d"
    and "\<forall>b \<in> set (daq_data (calls c)). 0 < length b \<and> d dvd length b"
  shows "(\<forall>b \<in> set (daq_data (calls c')). 0 < length b \<and> d dvd length b)
         \<and> concat (daq_data (calls c')) @ byte_array c'
             = concat (daq_data (calls c)) @ byte_array c @ received evs
         \<and> length (byte_array c') < d
         \<and> (out = Continue \<or> out = Break)"
  using assms(2-4)
proof (induction evs arbitrary: c)
  case Nil
  then show ?case by simp
next
  case (Cons ev evs)
  show ?case
  proof (cases ev)
    case NotReadable
    then have "daq_loop d (on_running_tick c) evs = (out, c')"
      using Cons.prems(1) by (simp add: daq_iteration_def)
    from Cons.IH [OF this] Cons.prems(2,3) show ?thesis
      using NotReadable by (simp add: on_running_tick_keeps)
  next
    case (Readable chunk)
    obtain o1 c1 where r: "daq_receive d c chunk = (o1, c1)" by (cases "daq_receive d c chunk")
    note step = daq_receive_step [OF assms(1) r]
    have "daq_loop d (on_running_tick c1) evs = (out, c')"
      using Cons.prems(1) Readable r step(1) by (simp add: daq_iteration_def)
    from Cons.IH [OF this] step(2,3) step(4) [OF Cons.prems(3)] show ?thesis
      using Readable by (simp add: on_running_tick_keeps)
  next
    case RaiseOSError
    then have "out = Break" "c' = c"
      using Cons.prems(1) by (simp_all add: daq_iteration_def)
    then show ?thesis using Cons.prems(2,3) RaiseOSError by simp
  qed
qed

text \<open>
  C1: for a data unit \<open>d \<ge> 1\<close> and every run of the receive loop, every buffer passed to
  \<open>on_daq_data\<close> has a length that is positive and a multiple of \<open>d\<close>; the buffers passed
  so far, followed by the partial buffer, are exactly the bytes received so far, in
  order; and the partial buffer is shorter than one unit. So trailing bytes short of a
  unit stay in the partial buffer, in front of the bytes of the next receive.
\<close>

theorem daq_record_alignment:
  assumes "1 \<le> d" and "daq_loop d daq_start evs = (out, c)"
  shows "(\<forall>b \<in> set (daq_data (calls c)). 0 < length b \<and> d dvd length b)
         \<and> concat (daq_data (calls c)) @ byte_array c = received evs
         \<and> length (byte_array c) < d
         \<and> (out = Continue \<or> out = Break)"
proof -
  have "length (byte_array daq_start) < d" "daq_data (calls daq_start) = []"
    using assms(1) by (simp_all add: daq_start_def)
  then show ?thesis
    using daq_loop_invariant [OF assms(1) assms(2)] by (simp add: daq_start_def)
qed

theorem daq_record_alignment_witness:
  "daq_loop 4 daq_start [Readable [1, 2, 3, 4, 5, 6], NotReadable, Readable [7, 8, 9]]
     = (Continue, \<lparr>byte_array = [9], running = 1, client_data_bytes = 8,
                   calls = [OnDaqData [1, 2, 3, 4], OnDaqRunning, OnDaqData [5, 6, 7, 8]]\<rparr>)
   \<and> (4::nat) dvd length [1, 2, 3, 4 :: byte] \<and> (4::nat) dvd length [5, 6, 7, 8 :: byte]
   \<and> [1, 2, 3, 4, 5, 6, 7, 8, 9 :: byte]
       = received [Readable [1, 2, 3, 4, 5, 6], NotReadable, Readable [7, 8, 9]]"
proof -
  have run: "daq_loop 4 daq_start [Readable [1, 2, 3, 4, 5, 6], NotReadable, Readable [7, 8, 9]]
     = (Continue, \<lparr>byte_array = [9], running = 1, client_data_bytes = 8,
                   calls = [OnDaqData [1, 2, 3, 4], OnDaqRunning, OnDaqData [5, 6, 7, 8]]\<rparr>)"
    by (simp add: daq_start_def daq_iteration_def daq_receive_def on_running_tick_def Let_def)
  have d: "(1::nat) \<le> 4" by simp
  show ?thesis
    using daq_record_alignment [OF d run] run by simp
qed

section \<open>Properties of text sessions\<close>

text \<open>\<open>occurs_at xs sub i\<close>: the bytes \<open>sub\<close> stand in \<open>xs\<close> at index \<open>i\<close>.\<close>

lemma find_from_range: "find_from xs sub i = - 1 \<or> int i \<le> find_from xs sub i"
  by (induction xs sub i rule: find_from.induct) auto

lemma find_from_none:
  "sub \<noteq> [] \<Longrightarrow> find_from xs sub i = - 1 \<longleftrightarrow> (\<forall>j. take (length sub) (drop j xs) \<noteq> sub)"
proof (induction xs sub i rule: find_from.induct)
  case (1 sub i)
  then show ?case by auto
next
  case (2 x xs sub i)
  show ?case
  proof (cases "take (length sub) (x # xs) = sub")
    case True
    then have "take (length sub) (drop 0 (x # xs)) = sub" by simp
    then have "\<not> (\<forall>j. take (length sub) (drop j (x # xs)) \<noteq> sub)" by blast
    then show ?thesis using True by simp
  next
    case False
    have "(\<forall>j. take (length sub) (drop j (x # xs)) \<noteq> sub)
            \<longleftrightarrow> (\<forall>j. take (length sub) (drop j xs) \<noteq> sub)"
    proof
      assume a: "\<forall>j. take (length sub) (drop j (x # xs)) \<noteq> sub"
      show "\<forall>j. take (length sub) (drop j xs) \<noteq> sub"
      proof
        fix j show "take (length sub) (drop j xs) \<noteq> sub" using a [rule_format, of "Suc j"] by simp
      qed
    next
      assume a: "\<forall>j. take (length sub) (drop j xs) \<noteq> sub"
      show "\<forall>j. take (length sub) (drop j (x # xs)) \<noteq> sub"
      proof
        fix j show "take (length sub) (drop j (x # xs)) \<noteq> sub"
          using a [rule_format, of "j - 1"] False by (cases j) simp_all
      qed
    qed
    then show ?thesis using False 2 by simp
  qed
qed

lemma find_from_first:
  "sub \<noteq> [] \<Longrightarrow> find_from xs sub i = int i + int k \<Longrightarrow>
     take (length sub) (drop k xs) = sub \<and> (\<forall>j < k. take (length sub) (drop j xs) \<noteq> sub)"
proof (induction xs sub i arbitrary: k rule: find_from.induct)
  case (1 sub i)
  then show ?case by simp
next
  case (2 x xs sub i)
  show ?case
  proof (cases "take (length sub) (x # xs) = sub")
    case True
    then have "k = 0" using 2(3) by simp
    then show ?thesis using True by simp
  next
    case False
    then have eq: "find_from xs sub (Suc i) = int i + int k" using 2(3) by simp
    have "int (Suc i) \<le> find_from xs sub (Suc i)"
      using find_from_range [of xs sub "Suc i"] eq by auto
    then obtain k' where k: "k = Suc k'" using eq by (cases k) auto
    have "find_from xs sub (Suc i) = int (Suc i) + int k'" using eq k by simp
    from 2(1) [OF False 2(2) this]
    have ih: "take (length sub) (drop k' xs) = sub"
             "\<forall>j < k'. take (length sub) (drop j xs) \<noteq> sub" by blast+
    have "\<forall>j < k. take (length sub) (drop j (x # xs)) \<noteq> sub"
    proof (intro allI impI)
      fix j assume "j < k"
      then show "take (length sub) (drop j (x # xs)) \<noteq> sub"
        using ih(2) False k by (cases j) simp_all
    qed
    then show ?thesis using ih(1) k by simp
  qed
qed

text \<open>\<open>bytes_find\<close> returns \<open>-1\<close> exactly when \<open>sub\<close> does not occur, and otherwise the index
  of its first occurrence.\<close>

lemma bytes_find_cases:
  assumes "sub \<noteq> []"
  shows "(bytes_find xs sub = - 1 \<and> (\<forall>j. take (length sub) (drop j xs) \<noteq> sub))
       \<or> (\<exists>k. bytes_find xs sub = int k \<and> take (length sub) (drop k xs) = sub
              \<and> (\<forall>j < k. take (length sub) (drop j xs) \<noteq> sub))"
proof (cases "bytes_find xs sub = - 1")
  case True
  then show ?thesis using find_from_none [OF assms, of xs 0] by (simp add: bytes_find_def)
next
  case False
  then have "0 \<le> bytes_find xs sub"
    using find_from_range [of xs sub 0] by (simp add: bytes_find_def)
  then obtain k where k: "bytes_find xs sub = int k" using nonneg_int_cases by blast
  then have "find_from xs sub 0 = int 0 + int k" by (simp add: bytes_find_def)
  from find_from_first [OF assms this] k show ?thesis by blast
qed

lemma bytes_find_first:
  assumes "sub \<noteq> []" and "first_at sub xs k"
  shows "bytes_find xs sub = int k"
proof -
  from bytes_find_cases [OF assms(1), of xs]
  consider "\<forall>j. take (length sub) (drop j xs) \<noteq> sub"
    | k' where "bytes_find xs sub = int k'" "take (length sub) (drop k' xs) = sub"
               "\<forall>j < k'. take (length sub) (drop j xs) \<noteq> sub"
    by blast
  then show ?thesis
  proof cases
    case 1
    then show ?thesis using assms(2) by (simp add: first_at_def)
  next
    case 2
    have "\<not> k < k'" using 2(3) assms(2) by (auto simp: first_at_def)
    moreover have "\<not> k' < k" using 2(2) assms(2) by (auto simp: first_at_def)
    ultimately show ?thesis using 2(1) by simp
  qed
qed

lemma bytes_find_absent:
  assumes "sub \<noteq> []" and "absent sub xs"
  shows "bytes_find xs sub = - 1"
  using bytes_find_cases [OF assms(1), of xs] assms(2) by (auto simp: absent_def)

lemma first_at_split:
  assumes "first_at sub xs k"
  shows "take (k + length sub) xs = take k xs @ sub"
    and "xs = take k xs @ sub @ drop (k + length sub) xs"
proof -
  have occ: "take (length sub) (drop k xs) = sub" using assms by (simp add: first_at_def)
  show t: "take (k + length sub) xs = take k xs @ sub"
    using occ by (simp add: take_add)
  have "xs = take (k + length sub) xs @ drop (k + length sub) xs" by simp
  then show "xs = take k xs @ sub @ drop (k + length sub) xs" using t by simp
qed

lemma find_delimiter_position_cases:
  shows "first_at [CR, LF] buf k \<Longrightarrow>
           find_delimiter_position h buf = (int k + 2, h\<lparr>linesep := [CR, LF]\<rparr>)"
    and "absent [CR, LF] buf \<Longrightarrow> first_at [LF] buf k \<Longrightarrow>
           find_delimiter_position h buf = (int k + 1, h\<lparr>linesep := [LF]\<rparr>)"
    and "absent [CR, LF] buf \<Longrightarrow> absent [LF] buf \<Longrightarrow> first_at [CR] buf k \<Longrightarrow>
           find_delimiter_position h buf = (int k + 1, h\<lparr>linesep := [CR]\<rparr>)"
    and "absent [CR, LF] buf \<Longrightarrow> absent [LF] buf \<Longrightarrow> absent [CR] buf \<Longrightarrow>
           find_delimiter_position h buf = (- 1, h)"
  by (simp_all add: find_delimiter_position_def bytes_find_first bytes_find_absent)

text \<open>
  C4 (as stated, refuted): for the buffer \<open>a\r b\r\n c\<close> (bytes 61 0D 62 0D 0A 63) the
  split is not at the lone CR at index 1: the position is 5, after the CR-LF, and the
  message passed to \<open>on_data\<close> is the five bytes up to and including the CR-LF, not the
  single byte \<open>a\<close>. The message contains its terminator.
\<close>

theorem line_framing_counterexample:
  "fst (find_delimiter_position TextHandler_init [0x61, 0x0d, 0x62, 0x0d, 0x0a, 0x63]) = 5
   \<and> message (session_receive keep_open \<lparr>rest_byte_data = [], handler = TextHandler_init\<rparr>
                [0x61, 0x0d, 0x62, 0x0d, 0x0a, 0x63])
       = Some [0x61, 0x0d, 0x62, 0x0d, 0x0a]
   \<and> message (session_receive keep_open \<lparr>rest_byte_data = [], handler = TextHandler_init\<rparr>
                [0x61, 0x0d, 0x62, 0x0d, 0x0a, 0x63])
       \<noteq> Some [0x61]
   \<and> rest_byte_data (after (session_receive keep_open
                \<lparr>rest_byte_data = [], handler = TextHandler_init\<rparr>
                [0x61, 0x0d, 0x62, 0x0d, 0x0a, 0x63]))
       = [0x63]"
  by (simp add: session_receive_def find_delimiter_position_def bytes_find_def CR_def LF_def
                keep_open_def TextHandler_init_def)

text \<open>
  C4 (amended): on a non-empty receive the buffer is the residual followed by the
  received bytes. The terminator is chosen by priority, not by position: CR-LF if it
  occurs anywhere in the buffer, otherwise LF, otherwise CR. The buffer is split just
  after the first occurrence of the chosen terminator: the message passed to \<open>on_data\<close>
  is the bytes before that occurrence followed by the terminator itself, the terminator
  is remembered as the line separator, and when \<open>on_data\<close> asks to continue the bytes
  after the terminator are the residual for the next receive. With no terminator in
  the buffer nothing is passed to \<open>on_data\<close> and the whole buffer is the residual.
\<close>

theorem line_framing:
  assumes "chunk \<noteq> []"
    and "buf = rest_byte_data s @ chunk"
    and "r = session_receive on_data s chunk"
  shows "(first_at [CR, LF] buf k \<longrightarrow>
            message r = Some (take k buf @ [CR, LF])
            \<and> linesep (handler (after r)) = [CR, LF]
            \<and> continue r = on_data (take k buf @ [CR, LF])
            \<and> (continue r \<longrightarrow> rest_byte_data (after r) = drop (k + 2) buf)
            \<and> buf = take k buf @ [CR, LF] @ drop (k + 2) buf)
       \<and> (absent [CR, LF] buf \<and> first_at [LF] buf k \<longrightarrow>
            message r = Some (take k buf @ [LF])
            \<and> linesep (handler (after r)) = [LF]
            \<and> continue r = on_data (take k buf @ [LF])
            \<and> (continue r \<longrightarrow> rest_byte_data (after r) = drop (k + 1) buf)
            \<and> buf = take k buf @ [LF] @ drop (k + 1) buf)
       \<and> (absent [CR, LF] buf \<and> absent [LF] buf \<and> first_at [CR] buf k \<longrightarrow>
            message r = Some (take k buf @ [CR])
            \<and> linesep (handler (after r)) = [CR]
            \<and> continue r = on_data (take k buf @ [CR])
            \<and> (continue r \<longrightarrow> rest_byte_data (after r) = drop (k + 1) buf)
            \<and> buf = take k buf @ [CR] @ drop (k + 1) buf)
       \<and> (absent [CR, LF] buf \<and> absent [LF] buf \<and> absent [CR] buf \<longrightarrow>
            message r = None \<and> continue r \<and> rest_byte_data (after r) = buf
            \<and> handler (after r) = handler s)"
proof -
  have byte_data: "(if rest_byte_data s \<noteq> [] then rest_byte_data s @ chunk else chunk) = buf"
    using assms(2) by simp
  have r: "r = (let (delimiter_pos, h) = find_delimiter_position (handler s) buf
         in if delimiter_pos \<ge> 0 then
              (if \<not> on_data (take (nat delimiter_pos) buf)
               then \<lparr>message = Some (take (nat delimiter_pos) buf), continue = False,
                     after = s\<lparr>handler := h\<rparr>\<rparr>
               else \<lparr>message = Some (take (nat delimiter_pos) buf), continue = True,
                     after = s\<lparr>handler := h,
                                rest_byte_data := drop (nat delimiter_pos) buf\<rparr>\<rparr>)
            else \<lparr>message = None, continue = True,
                  after = s\<lparr>handler := h, rest_byte_data := buf\<rparr>\<rparr>)"
    using assms(1,3) unfolding session_receive_def byte_data by simp
  have framed: "message r = Some (take k buf @ d)
            \<and> linesep (handler (after r)) = d
            \<and> continue r = on_data (take k buf @ d)
            \<and> (continue r \<longrightarrow> rest_byte_data (after r) = drop (k + length d) buf)
            \<and> buf = take k buf @ d @ drop (k + length d) buf"
    if fdp: "find_delimiter_position (handler s) buf
               = (int k + int (length d), (handler s)\<lparr>linesep := d\<rparr>)"
      and first: "first_at d buf k" for d
  proof -
    have pos: "nat (int k + int (length d)) = k + length d" by simp
    note sp = first_at_split [OF first]
    show ?thesis
      unfolding r fdp using sp(2) by (simp add: pos sp(1))
  qed
  have c1: "first_at [CR, LF] buf k \<longrightarrow>
            message r = Some (take k buf @ [CR, LF])
            \<and> linesep (handler (after r)) = [CR, LF]
            \<and> continue r = on_data (take k buf @ [CR, LF])
            \<and> (continue r \<longrightarrow> rest_byte_data (after r) = drop (k + 2) buf)
            \<and> buf = take k buf @ [CR, LF] @ drop (k + 2) buf"
  proof
    assume a: "first_at [CR, LF] buf k"
    show "message r = Some (take k buf @ [CR, LF])
            \<and> linesep (handler (after r)) = [CR, LF]
            \<and> continue r = on_data (take k buf @ [CR, LF])
            \<and> (continue r \<longrightarrow> rest_byte_data (after r) = drop (k + 2) buf)
            \<and> buf = take k buf @ [CR, LF] @ drop (k + 2) buf"
      using framed [of "[CR, LF]"] find_delimiter_position_cases(1) [OF a, of "handler s"] a
      by simp
  qed
  have c2: "absent [CR, LF] buf \<and> first_at [LF] buf k \<longrightarrow>
            message r = Some (take k buf @ [LF])
            \<and> linesep (handler (after r)) = [LF]
            \<and> continue r = on_data (take k buf @ [LF])
            \<and> (continue r \<longrightarrow> rest_byte_data (after r) = drop (k + 1) buf)
            \<and> buf = take k buf @ [LF] @ drop (k + 1) buf"
  proof
    assume a: "absent [CR, LF] buf \<and> first_at [LF] buf k"
    show "message r = Some (take k buf @ [LF])
            \<and> linesep (handler (after r)) = [LF]
            \<and> continue r = on_data (take k buf @ [LF])
            \<and> (continue r \<longrightarrow> rest_byte_data (after r) = drop (k + 1) buf)
            \<and> buf = take k buf @ [LF] @ drop (k + 1) buf"
      using framed [of "[LF]"] find_delimiter_position_cases(2) [of buf k "handler s"] a
      by simp
  qed
  have c3: "absent [CR, LF] buf \<and> absent [LF] buf \<and> first_at [CR] buf k \<longrightarrow>
            message r = Some (take k buf @ [CR])
            \<and> linesep (handler (after r)) = [CR]
            \<and> continue r = on_data (take k buf @ [CR])
            \<and> (continue r \<longrightarrow> rest_byte_data (after r) = drop (k + 1) buf)
            \<and> buf = take k buf @ [CR] @ drop (k + 1) buf"
  proof
    assume a: "absent [CR, LF] buf \<and> absent [LF] buf \<and> first_at [CR] buf k"
    show "message r = Some (take k buf @ [CR])
            \<and> linesep (handler (after r)) = [CR]
            \<and> continue r = on_data (take k buf @ [CR])
            \<and> (continue r \<longrightarrow> rest_byte_data (after r) = drop (k + 1) buf)
            \<and> buf = take k buf @ [CR] @ drop (k + 1) buf"
      using framed [of "[CR]"] find_delimiter_position_cases(3) [of buf k "handler s"] a
      by simp
  qed
  have c4: "absent [CR, LF] buf \<and> absent [LF] buf \<and> absent [CR] buf \<longrightarrow>
            message r = None \<and> continue r \<and> rest_byte_data (after r) = buf
            \<and> handler (after r) = handler s"
  proof
    assume a: "absent [CR, LF] buf \<and> absent [LF] buf \<and> absent [CR] buf"
    then have "find_delimiter_position (handler s) buf = (- 1, handler s)"
      using find_delimiter_position_cases(4) by blast
    then show "message r = None \<and> continue r \<and> rest_byte_data (after r) = buf
            \<and> handler (after r) = handler s"
      unfolding r by simp
  qed
  show ?thesis using c1 c2 c3 c4 by blast
qed

theorem line_framing_witness:
  "first_at [CR, LF] [0x61, 0x0d, 0x62, 0x0d, 0x0a, 0x63] 3
   \<and> message (session_receive keep_open
                \<lparr>rest_byte_data = [0x61, 0x0d], handler = TextHandler_init\<rparr>
                [0x62, 0x0d, 0x0a, 0x63])
       = Some [0x61, 0x0d, 0x62, 0x0d, 0x0a]
   \<and> rest_byte_data (after (session_receive keep_open
                \<lparr>rest_byte_data = [0x61, 0x0d], handler = TextHandler_init\<rparr>
                [0x62, 0x0d, 0x0a, 0x63]))
       = [0x63]"
proof -
  have first: "first_at [CR, LF] [0x61, 0x0d, 0x62, 0x0d, 0x0a, 0x63] 3"
    by (simp add: first_at_def CR_def LF_def less_Suc_eq numeral_3_eq_3)
  have chunk: "[0x62, 0x0d, 0x0a, 0x63 :: byte] \<noteq> []" by simp
  have buf: "[0x61, 0x0d, 0x62, 0x0d, 0x0a, 0x63]
               = rest_byte_data \<lparr>rest_byte_data = [0x61, 0x0d], handler = TextHandler_init\<rparr>
                 @ [0x62, 0x0d, 0x0a, 0x63 :: byte]"
    by simp
  show ?thesis
    using line_framing [OF chunk buf refl, of 3 keep_open] first
    by (simp add: keep_open_def CR_def LF_def)
qed

lemma absent_or_first: "absent sub xs \<or> (\<exists>k. first_at sub xs k)"
proof (cases "absent sub xs")
  case True
  then show ?thesis by simp
next
  case False
  then obtain j where j: "take (length sub) (drop j xs) = sub" by (auto simp: absent_def)
  define k where "k = (LEAST j. take (length sub) (drop j xs) = sub)"
  have "take (length sub) (drop k xs) = sub" unfolding k_def using j by (rule LeastI)
  moreover have "\<forall>i < k. take (length sub) (drop i xs) \<noteq> sub"
    unfolding k_def using not_less_Least by blast
  ultimately show ?thesis by (auto simp: first_at_def)
qed

section \<open>Properties of the data generator\<close>

lemma store_bytes_frame:
  assumes "index + length bs \<le> length data"
  shows "\<exists>data'. store_bytes data index bs = Inr data' \<and> length data' = length data
           \<and> (\<forall>i. index + length bs \<le> i \<longrightarrow> data' ! i = data ! i)"
  using assms
proof (induction bs arbitrary: data index)
  case Nil
  then show ?case by simp
next
  case (Cons b bs)
  have "Suc index + length bs \<le> length (data[index := b])" using Cons.prems by simp
  from Cons.IH [OF this] obtain data' where
    d: "store_bytes (data[index := b]) (Suc index) bs = Inr data'"
       "length data' = length data"
       "\<forall>i. Suc index + length bs \<le> i \<longrightarrow> data' ! i = data[index := b] ! i"
    by auto
  have "index < length data" using Cons.prems by simp
  then show ?case using d by (auto simp: set_byte_def)
qed

lemma create_unit_frame:
  assumes "data_unit g = 8" and "0 \<le> count g" and "count g < 0xffffffff"
    and "8 * u + 8 \<le> length data"
  shows "\<exists>data' g'. create_unit g data u = Inr (data', g') \<and> length data' = length data
           \<and> (\<forall>i. 8 * u + 8 \<le> i \<longrightarrow> data' ! i = data ! i)
           \<and> data_unit g' = 8 \<and> 0 \<le> count g' \<and> count g' < 0xffffffff"
proof -
  obtain bs where bs: "pack_L (count g) = Inr bs" "length bs = 4"
    using assms(2,3) by (simp add: pack_L_def)
  have s1: "set_byte data (8 * u) 0xa5 = Inr (data[8 * u := 0xa5])"
    using assms(4) by (simp add: set_byte_def)
  have "8 * u + 4 + length bs \<le> length (data[8 * u := 0xa5])"
    using assms(4) bs(2) by simp
  from store_bytes_frame [OF this] obtain data' where
    d: "store_bytes (data[8 * u := 0xa5]) (8 * u + 4) bs = Inr data'"
       "length data' = length data"
       "\<forall>i. 8 * u + 4 + length bs \<le> i \<longrightarrow> data' ! i = data[8 * u := 0xa5] ! i"
    by auto
  have "\<forall>i. 8 * u + 8 \<le> i \<longrightarrow> data' ! i = data ! i"
    using d(3) bs(2) by simp
  then show ?thesis
    using bs(1) s1 d(1,2) assms(1,2,3) by (simp add: create_unit_def Let_def)
qed

lemma create_units_frame:
  assumes "data_unit g = 8" and "0 \<le> count g" and "count g < 0xffffffff"
    and "\<forall>u \<in> set us. 8 * u + 8 \<le> m" and "m \<le> length data"
  shows "\<exists>data' g'. create_units g data us = Inr (data', g') \<and> length data' = length data
           \<and> (\<forall>i. m \<le> i \<longrightarrow> data' ! i = data ! i)"
  using assms
proof (induction us arbitrary: g data)
  case Nil
  then show ?case by simp
next
  case (Cons u us)
  have "8 * u + 8 \<le> length data" using Cons.prems(4,5) by simp
  from create_unit_frame [OF Cons.prems(1-3) this] obtain data1 g1 where
    u: "create_unit g data u = Inr (data1, g1)" "length data1 = length data"
       "\<forall>i. 8 * u + 8 \<le> i \<longrightarrow> data1 ! i = data ! i"
       "data_unit g1 = 8" "0 \<le> count g1" "count g1 < 0xffffffff"
    by blast
  have "\<forall>u \<in> set us. 8 * u + 8 \<le> m" "m \<le> length data1"
    using Cons.prems(4,5) u(2) by simp_all
  from Cons.IH [OF u(4-6) this] obtain data' g' where
    r: "create_units g1 data1 us = Inr (data', g')" "length data' = length data1"
       "\<forall>i. m \<le> i \<longrightarrow> data' ! i = data1 ! i"
    by blast
  have "\<forall>i. m \<le> i \<longrightarrow> data' ! i = data ! i"
    using r(3) u(3) Cons.prems(4) by auto
  then show ?case using u(1,2) r(1,2) by simp
qed

text \<open>For every \<open>n \<ge> 1\<close> the record has \<open>8 n\<close> bytes and its last data unit is all zero:
  it has neither the sentinel nor a counter.\<close>

lemma create_data_last_unit_zero:
  assumes "data_unit g = 8" and "0 \<le> count g" and "count g < 0xffffffff" and "1 \<le> n"
  shows "\<exists>data g'. create_data g n = Inr (data, g') \<and> length data = 8 * n
           \<and> drop (8 * (n - 1)) data = replicate 8 0"
proof -
  have us: "\<forall>u \<in> set [0..<n - 1]. 8 * u + 8 \<le> 8 * (n - 1)" by auto
  have len: "8 * (n - 1) \<le> length (replicate (8 * n) (0::byte))" by simp
  from create_units_frame [OF assms(1-3) us len] obtain data g' where
    r: "create_units g (replicate (8 * n) 0) [0..<n - 1] = Inr (data, g')"
       "length data = 8 * n"
       "\<forall>i. 8 * (n - 1) \<le> i \<longrightarrow> data ! i = replicate (8 * n) 0 ! i"
    by auto
  have "drop (8 * (n - 1)) data = replicate 8 0"
  proof (rule nth_equalityI)
    show "length (drop (8 * (n - 1)) data) = length (replicate 8 (0::byte))"
      using r(2) assms(4) by simp
  next
    fix i assume "i < length (drop (8 * (n - 1)) data)"
    then have i: "8 * (n - 1) + i < 8 * n" using r(2) by simp
    then show "drop (8 * (n - 1)) data ! i = replicate 8 (0::byte) ! i"
      using r(2,3) assms(4) by simp
  qed
  then show ?thesis using r(1,2) assms(1) by (simp add: create_data_def)
qed

text \<open>
  C8 (the code departs from the claim): \<open>create_data\<close> fills the data units
  \<open>0 .. n - 2\<close> only, because its loop runs over \<open>range(0, data_unit_count - 1)\<close>. The last
  unit of every record keeps the zero bytes of the fresh \<open>bytearray\<close>: for \<open>n = 1\<close> the
  record is eight zero bytes and the counter does not move; for \<open>n = 2\<close> (the default
  burst) only the first unit carries the sentinel and a counter value.
\<close>

theorem create_data_last_unit_unfilled:
  "create_data DataGenerator_init 1 = Inr ([0, 0, 0, 0, 0, 0, 0, 0], DataGenerator_init)
   \<and> create_data DataGenerator_init 2
       = Inr ([0xa5, 0, 0, 0, 0, 0, 0, 0, 0, 0, 0, 0, 0, 0, 0, 0],
              DataGenerator_init\<lparr>count := 1\<rparr>)
   \<and> create_data (DataGenerator_init\<lparr>count := 0x01020304\<rparr>) 3
       = Inr ([0xa5, 0, 0, 0, 1, 2, 3, 4, 0xa5, 0, 0, 0, 1, 2, 3, 5, 0, 0, 0, 0, 0, 0, 0, 0],
              DataGenerator_init\<lparr>count := 0x01020306\<rparr>)"
  by code_simp

section \<open>Properties of virtual registers\<close>

lemma length_assign_slice:
  "lo + length data \<le> length mem \<Longrightarrow> length (assign_slice mem lo data) = length mem"
  by (simp add: assign_slice_def)


lemma write_callback_loop_no_callbacks:
  "write_callbacks r = Map.empty \<Longrightarrow> write_callback_loop r data xs = ([], Inr ())"
  by (induction xs) (simp_all add: return_res_def)

lemma write_bytes_no_callbacks:
  assumes "write_callbacks r = Map.empty" and "check_address_range r address (length data)"
    and "memory_is_bytearray r"
  shows "write_bytes r address data
           = ([], Inr (r\<lparr>memory := assign_slice (memory r) (nat (address - start_address r)) data\<rparr>))"
  using assms
  by (simp add: write_bytes_def write_callback_loop_no_callbacks bind_res_def return_res_def)

lemma merge_eq:
  "merge s r =
     (if is_neighbor s r \<or> is_intersect s r
      then ([], Inr (True, s\<lparr>start_address := min (start_address s) (start_address r),
                              memory := merged_memory s r, memory_is_bytearray := True\<rparr>))
      else ([], Inr (False, s)))"
proof (cases "is_neighbor s r \<or> is_intersect s r")
  case False
  then show ?thesis by (simp add: merge_def get_register_info_def return_res_def)
next
  case True
  define lo where "lo = min (start_address s) (start_address r)"
  define hi where "hi = max (start_address s + int (length (memory s)))
                            (start_address r + int (length (memory r)))"
  define merged where "merged = VirtualRegister (nat (hi - lo)) lo"
  have bounds: "lo \<le> start_address s" "lo \<le> start_address r"
    "start_address s + int (length (memory s)) \<le> hi"
    "start_address r + int (length (memory r)) \<le> hi"
    by (simp_all add: lo_def hi_def)
  have m: "memory merged = replicate (nat (hi - lo)) 0" "start_address merged = lo"
    "write_callbacks merged = Map.empty" "memory_is_bytearray merged"
    by (simp_all add: merged_def VirtualRegister_def)
  have c1: "check_address_range merged (start_address s) (length (memory s))"
    using bounds by (simp add: check_address_range_def memory_size_def m)
  define merged1 where
    "merged1 = merged\<lparr>memory := assign_slice (memory merged) (nat (start_address s - lo)) (memory s)\<rparr>"
  have w1: "write_bytes merged (start_address s) (memory s) = ([], Inr merged1)"
    using write_bytes_no_callbacks [OF m(3) c1 m(4)] by (simp add: merged1_def m)
  have len1: "length (memory merged1) = nat (hi - lo)"
    using bounds by (simp add: merged1_def m length_assign_slice)
  have m1: "start_address merged1 = lo" "write_callbacks merged1 = Map.empty"
    "memory_is_bytearray merged1"
    by (simp_all add: merged1_def m)
  have c2: "check_address_range merged1 (start_address r) (length (memory r))"
    using bounds by (simp add: check_address_range_def memory_size_def m1 len1)
  have w2: "write_bytes merged1 (start_address r) (memory r)
              = ([], Inr (merged1\<lparr>memory := assign_slice (memory merged1)
                                      (nat (start_address r - lo)) (memory r)\<rparr>))"
    using write_bytes_no_callbacks [OF m1(2) c2 m1(3)] by (simp add: m1)
  have mem: "assign_slice (memory merged1) (nat (start_address r - lo)) (memory r)
               = merged_memory s r"
    by (simp add: merged_memory_def Let_def merged1_def m lo_def hi_def)
  have "merge s r = ([], Inr (True, s\<lparr>start_address := lo, memory := merged_memory s r,
                                         memory_is_bytearray := True\<rparr>))"
    using True w1 w2 mem m1(3)
    unfolding merge_def get_register_info_def memory_size_def
    by (simp add: Let_def bind_res_def return_res_def
                  lo_def [symmetric] hi_def [symmetric] merged_def [symmetric])
  then show ?thesis using True by (simp add: lo_def)
qed

section \<open>Callbacks of virtual registers\<close>

text \<open>
  C7 (the code departs from the claim): the value handed to a write callback is
  \<open>data_bytes[write_address - self._start_address]\<close>, indexed from the start of the
  region and not from the start of the write. On a region of 16 bytes at address 0 with
  a callback at address 8, writing the two bytes 11 22 at address 8 raises \<open>IndexError\<close>
  before anything is stored; writing six bytes at address 4 with a callback at address 5
  hands the callback the byte at index 5 of the data (0F), not the byte being written
  at address 5 (0B).
\<close>

theorem write_callback_wrong_index:
  "write_bytes (register_write_callback (VirtualRegister 16 0) 8 1) 8 [0x11, 0x22]
     = ([], Inl IndexError)
   \<and> fst (write_bytes (register_write_callback (VirtualRegister 16 0) 5 1) 4
             [0x0a, 0x0b, 0x0c, 0x0d, 0x0e, 0x0f])
       = [WriteCallback 1 5 0x0f]
   \<and> [0x0a, 0x0b, 0x0c, 0x0d, 0x0e, 0x0f :: byte] ! nat (5 - 4) = 0x0b"
  by (simp add: write_bytes_def register_write_callback_def VirtualRegister_def
                check_address_range_def memory_size_def py_range_def py_index_def
                bind_res_def return_res_def raise_res_def upt_rec [of _ "Suc _"]
                numeral_2_eq_2 eval_nat_numeral)


lemma read_callback_loop_events:
  "ev \<in> set (read_callback_loop r xs) \<Longrightarrow>
     \<exists>cb h. ev = ReadCallback cb h \<and> read_callbacks r h = Some cb"
  by (induction xs) (auto split: option.splits)

lemma write_callback_loop_events:
  "ev \<in> set (fst (write_callback_loop r data xs)) \<Longrightarrow>
     \<exists>cb h v. ev = WriteCallback cb h v \<and> write_callbacks r h = Some cb"
proof (induction xs)
  case Nil
  then show ?case by (simp add: return_res_def)
next
  case (Cons x xs)
  show ?case
  proof (cases "write_callbacks r x")
    case None
    then show ?thesis using Cons by simp
  next
    case (Some cb)
    show ?thesis
    proof (cases "py_index data (x - start_address r)")
      case (Inl e)
      then show ?thesis using Cons.prems Some by (simp add: raise_res_def)
    next
      case (Inr v)
      obtain t y where l: "write_callback_loop r data xs = (t, y)"
        by (cases "write_callback_loop r data xs")
      then have "ev = WriteCallback cb x v \<or> ev \<in> set (fst (write_callback_loop r data xs))"
        using Cons.prems Some Inr by (auto simp: bind_res_def)
      then show ?thesis using Cons.IH Some by blast
    qed
  qed
qed

lemma read_bytes_events:
  "ev \<in> set (fst (read_bytes r a n)) \<Longrightarrow>
     \<exists>cb h. ev = ReadCallback cb h \<and> read_callbacks r h = Some cb"
  using read_callback_loop_events [of ev r]
  by (auto simp: read_bytes_def raise_res_def split: if_splits)

lemma write_bytes_events:
  assumes "ev \<in> set (fst (write_bytes r a d))"
  shows "\<exists>cb h v. ev = WriteCallback cb h v \<and> write_callbacks r h = Some cb"
proof -
  obtain t y where l: "write_callback_loop r d (py_range a (a + int (length d))) = (t, y)"
    by (cases "write_callback_loop r d (py_range a (a + int (length d)))")
  have "fst (write_bytes r a d) = t \<or> fst (write_bytes r a d) = []"
    using l by (auto simp: write_bytes_def bind_res_def return_res_def raise_res_def Let_def
                     split: sum.splits)
  then have "ev \<in> set (fst (write_callback_loop r d (py_range a (a + int (length d)))))"
    using assms l by auto
  then show ?thesis by (rule write_callback_loop_events)
qed

text \<open>
  C10: when \<open>merge\<close> absorbs a register, it invokes no callback itself, and the surviving
  register keeps exactly its own read and write callback maps. Every callback that a
  later read or write on the merged register invokes is one that the surviving register
  had registered at that address: a callback registered only on the absorbed register
  is never invoked, also not at the address where it was registered.
\<close>

theorem merge_discards_absorbed_callbacks:
  assumes "merge self register = (tr, Inr (True, self'))"
  shows "tr = []
       \<and> read_callbacks self' = read_callbacks self
       \<and> write_callbacks self' = write_callbacks self
       \<and> (\<forall>ev \<in> set (fst (read_bytes self' a n)).
            \<exists>cb h. ev = ReadCallback cb h \<and> read_callbacks self h = Some cb)
       \<and> (\<forall>ev \<in> set (fst (write_bytes self' a d)).
            \<exists>cb h v. ev = WriteCallback cb h v \<and> write_callbacks self h = Some cb)
       \<and> (read_callbacks self h \<noteq> Some cb \<longrightarrow>
            ReadCallback cb h \<notin> set (fst (read_bytes self' a n)))
       \<and> (write_callbacks self h \<noteq> Some cb \<longrightarrow>
            WriteCallback cb h v \<notin> set (fst (write_bytes self' a d)))"
proof -
  have m: "tr = []" "self' = self\<lparr>start_address := min (start_address self) (start_address register),
                                 memory := merged_memory self register,
                                 memory_is_bytearray := True\<rparr>"
    using assms unfolding merge_eq by (auto split: if_splits)
  have cbs: "read_callbacks self' = read_callbacks self"
            "write_callbacks self' = write_callbacks self"
    by (simp_all add: m(2))
  have r: "\<forall>ev \<in> set (fst (read_bytes self' a n)).
            \<exists>cb h. ev = ReadCallback cb h \<and> read_callbacks self h = Some cb"
    using read_bytes_events [of _ self' a n] cbs(1) by auto
  have w: "\<forall>ev \<in> set (fst (write_bytes self' a d)).
            \<exists>cb h v. ev = WriteCallback cb h v \<and> write_callbacks self h = Some cb"
    using write_bytes_events [of _ self' a d] cbs(2) by auto
  have r': "read_callbacks self h \<noteq> Some cb \<longrightarrow>
            ReadCallback cb h \<notin> set (fst (read_bytes self' a n))"
    using r by auto
  have w': "write_callbacks self h \<noteq> Some cb \<longrightarrow>
            WriteCallback cb h v \<notin> set (fst (write_bytes self' a d))"
    using w by auto
  show ?thesis using m(1) cbs r w r' w' by blast
qed

theorem merge_discards_absorbed_callbacks_witness:
  "merge (register_read_callback (create 0 (PyBytearray [1, 2])) 0 7)
         (register_read_callback (create 2 (PyBytearray [3, 4])) 3 9)
     = ([], Inr (True, \<lparr>memory = [1, 2, 3, 4], memory_is_bytearray = True, start_address = 0,
                        read_callbacks = [0 \<mapsto> 7], write_callbacks = Map.empty\<rparr>))
   \<and> read_callbacks (register_read_callback (create 2 (PyBytearray [3, 4])) 3 9) 3 = Some 9
   \<and> fst (read_bytes \<lparr>memory = [1, 2, 3, 4], memory_is_bytearray = True, start_address = 0,
                      read_callbacks = [0 \<mapsto> 7], write_callbacks = Map.empty\<rparr> 0 4)
       = [ReadCallback 7 0]
   \<and> ReadCallback 9 3 \<notin> set (fst (read_bytes \<lparr>memory = [1, 2, 3, 4], memory_is_bytearray = True, start_address = 0,
                      read_callbacks = [0 \<mapsto> 7], write_callbacks = Map.empty\<rparr> 0 4))"
proof -
  have s: "register_read_callback (create 0 (PyBytearray [1, 2])) 0 7
             = \<lparr>memory = [1, 2], memory_is_bytearray = True, start_address = 0,
                read_callbacks = [0 \<mapsto> 7], write_callbacks = Map.empty\<rparr>"
    and r: "register_read_callback (create 2 (PyBytearray [3, 4])) 3 9
             = \<lparr>memory = [3, 4], memory_is_bytearray = True, start_address = 2,
                read_callbacks = [3 \<mapsto> 9], write_callbacks = Map.empty\<rparr>"
    by (simp_all add: register_read_callback_def create_def set_initial_data_def
                      VirtualRegister_def check_address_range_def memory_size_def)
  have mm: "merged_memory \<lparr>memory = [1, 2], memory_is_bytearray = True, start_address = 0,
                read_callbacks = [0 \<mapsto> 7], write_callbacks = Map.empty\<rparr>
              \<lparr>memory = [3, 4], memory_is_bytearray = True, start_address = 2,
                read_callbacks = [3 \<mapsto> 9], write_callbacks = Map.empty\<rparr> = [1, 2, 3, 4]"
    by (simp add: merged_memory_def assign_slice_def eval_nat_numeral)
  have h: "merge (register_read_callback (create 0 (PyBytearray [1, 2])) 0 7)
         (register_read_callback (create 2 (PyBytearray [3, 4])) 3 9)
     = ([], Inr (True, \<lparr>memory = [1, 2, 3, 4], memory_is_bytearray = True, start_address = 0,
                        read_callbacks = [0 \<mapsto> 7], write_callbacks = Map.empty\<rparr>))"
    unfolding s r merge_eq
    by (simp add: mm is_neighbor_def get_register_info_def memory_size_def)
  have t: "fst (read_bytes \<lparr>memory = [1, 2, 3, 4], memory_is_bytearray = True, start_address = 0,
                      read_callbacks = [0 \<mapsto> 7], write_callbacks = Map.empty\<rparr> 0 4)
       = [ReadCallback 7 0]"
    by (simp add: read_bytes_def check_address_range_def memory_size_def py_range_def
                  upt_rec [of _ "Suc _"] eval_nat_numeral)
  show ?thesis
    using merge_discards_absorbed_callbacks [OF h, of 0 4 "[]" 3 9 0] h t
    by (simp add: r)
qed

section \<open>Merging the registers of a bank\<close>






text \<open>The two loops of \<open>merge_registers\<close> never raise and invoke no callback. When they
  merge, one register of the list has absorbed a later one, which is removed.\<close>

lemma merge_inner_found:
  "\<exists>found. merge_inner r1 rest = ([], Inr found)
     \<and> (case found of
           None \<Rightarrow> \<forall>r2 \<in> set rest. merge r1 r2 = ([], Inr (False, r1))
         | Some (m, rest') \<Rightarrow>
             length rest' < length rest
             \<and> (\<exists>r2 \<in> set rest. merge r1 r2 = ([], Inr (True, m))
                   \<and> set rest' \<subseteq> set rest \<and> set rest \<subseteq> insert r2 (set rest')))"
proof (induction rest)
  case Nil
  then show ?case by (simp add: return_res_def)
next
  case (Cons r2 rest)
  show ?case
  proof (cases "is_neighbor r1 r2 \<or> is_intersect r1 r2")
    case True
    then have "merge r1 r2 = ([], Inr (True, r1\<lparr>start_address := min (start_address r1) (start_address r2),
                                                 memory := merged_memory r1 r2,
                                                 memory_is_bytearray := True\<rparr>))"
      by (simp add: merge_eq)
    then show ?thesis by (auto simp: bind_res_def return_res_def)
  next
    case False
    then have no: "merge r1 r2 = ([], Inr (False, r1))" by (simp add: merge_eq)
    from Cons.IH obtain found where
      f: "merge_inner r1 rest = ([], Inr found)"
         "case found of
           None \<Rightarrow> \<forall>r2 \<in> set rest. merge r1 r2 = ([], Inr (False, r1))
         | Some (m, rest') \<Rightarrow>
             length rest' < length rest
             \<and> (\<exists>r2 \<in> set rest. merge r1 r2 = ([], Inr (True, m))
                   \<and> set rest' \<subseteq> set rest \<and> set rest \<subseteq> insert r2 (set rest'))"
      by blast
    show ?thesis
    proof (cases found)
      case None
      then show ?thesis using no f by (simp add: bind_res_def return_res_def)
    next
      case (Some p)
      obtain m rest' where p: "p = (m, rest')" by (cases p)
      have eq: "merge_inner r1 (r2 # rest) = ([], Inr (Some (m, r2 # rest')))"
        using no f(1) Some p by (simp add: bind_res_def return_res_def)
      from f(2) Some p obtain r3 where
        r3: "r3 \<in> set rest" "merge r1 r3 = ([], Inr (True, m))"
            "set rest' \<subseteq> set rest" "set rest \<subseteq> insert r3 (set rest')"
            "length rest' < length rest"
        by auto
      have "\<exists>r \<in> set (r2 # rest). merge r1 r = ([], Inr (True, m))
              \<and> set (r2 # rest') \<subseteq> set (r2 # rest)
              \<and> set (r2 # rest) \<subseteq> insert r (set (r2 # rest'))"
        using r3 by (intro bexI [of _ r3]) auto
      then show ?thesis using eq r3(5) by simp
    qed
  qed
qed

lemma merge_outer_found:
  "\<exists>found. merge_outer rs = ([], Inr found)
     \<and> (case found of
           None \<Rightarrow> sorted_wrt (\<lambda>r1 r2. \<not> (is_neighbor r1 r2 \<or> is_intersect r1 r2)) rs
         | Some rs' \<Rightarrow>
             length rs' < length rs
             \<and> (\<exists>r1 \<in> set rs. \<exists>r2 \<in> set rs. \<exists>m \<in> set rs'.
                   merge r1 r2 = ([], Inr (True, m))
                   \<and> set rs' \<subseteq> insert m (set rs) \<and> set rs \<subseteq> insert r1 (insert r2 (set rs'))))"
proof (induction rs)
  case Nil
  then show ?case by (simp add: return_res_def)
next
  case (Cons r1 rest)
  from merge_inner_found [of r1 rest] obtain found where
    f: "merge_inner r1 rest = ([], Inr found)"
       "case found of
           None \<Rightarrow> \<forall>r2 \<in> set rest. merge r1 r2 = ([], Inr (False, r1))
         | Some (m, rest') \<Rightarrow>
             length rest' < length rest
             \<and> (\<exists>r2 \<in> set rest. merge r1 r2 = ([], Inr (True, m))
                   \<and> set rest' \<subseteq> set rest \<and> set rest \<subseteq> insert r2 (set rest'))"
    by blast
  show ?case
  proof (cases found)
    case (Some p)
    obtain m rest' where p: "p = (m, rest')" by (cases p)
    have eq: "merge_outer (r1 # rest) = ([], Inr (Some (m # rest')))"
      using f(1) Some p by (simp add: bind_res_def return_res_def)
    from f(2) Some p obtain r2 where
      r2: "r2 \<in> set rest" "merge r1 r2 = ([], Inr (True, m))"
          "set rest' \<subseteq> set rest" "set rest \<subseteq> insert r2 (set rest')"
          "length rest' < length rest"
      by auto
    have "\<exists>a \<in> set (r1 # rest). \<exists>b \<in> set (r1 # rest). \<exists>c \<in> set (m # rest').
            merge a b = ([], Inr (True, c))
            \<and> set (m # rest') \<subseteq> insert c (set (r1 # rest))
            \<and> set (r1 # rest) \<subseteq> insert a (insert b (set (m # rest')))"
      using r2 by (intro bexI [of _ r1] bexI [of _ r2] bexI [of _ m]) auto
    then show ?thesis using eq r2(5) by simp
  next
    case None
    from Cons.IH obtain found' where
      g: "merge_outer rest = ([], Inr found')"
         "case found' of
           None \<Rightarrow> sorted_wrt (\<lambda>r1 r2. \<not> (is_neighbor r1 r2 \<or> is_intersect r1 r2)) rest
         | Some rs' \<Rightarrow>
             length rs' < length rest
             \<and> (\<exists>r1 \<in> set rest. \<exists>r2 \<in> set rest. \<exists>m \<in> set rs'.
                   merge r1 r2 = ([], Inr (True, m))
                   \<and> set rs' \<subseteq> insert m (set rest)
                   \<and> set rest \<subseteq> insert r1 (insert r2 (set rs')))"
      by blast
    show ?thesis
    proof (cases found')
      case None
      have "\<forall>r2 \<in> set rest. \<not> (is_neighbor r1 r2 \<or> is_intersect r1 r2)"
      proof
        fix r2 assume "r2 \<in> set rest"
        then have "merge r1 r2 = ([], Inr (False, r1))" using f(2) \<open>found = None\<close> by simp
        then show "\<not> (is_neighbor r1 r2 \<or> is_intersect r1 r2)"
          unfolding merge_eq by (auto split: if_splits)
      qed
      then show ?thesis
        using f(1) g \<open>found = None\<close> None by (simp add: bind_res_def return_res_def)
    next
      case (Some rs')
      have eq: "merge_outer (r1 # rest) = ([], Inr (Some (r1 # rs')))"
        using f(1) g(1) \<open>found = None\<close> Some by (simp add: bind_res_def return_res_def)
      from g(2) Some obtain a b c where
        abc: "a \<in> set rest" "b \<in> set rest" "c \<in> set rs'" "merge a b = ([], Inr (True, c))"
             "set rs' \<subseteq> insert c (set rest)" "set rest \<subseteq> insert a (insert b (set rs'))"
             "length rs' < length rest"
        by auto
      have "\<exists>a \<in> set (r1 # rest). \<exists>b \<in> set (r1 # rest). \<exists>c \<in> set (r1 # rs').
            merge a b = ([], Inr (True, c))
            \<and> set (r1 # rs') \<subseteq> insert c (set (r1 # rest))
            \<and> set (r1 # rest) \<subseteq> insert a (insert b (set (r1 # rs')))"
        using abc by (intro bexI [of _ a] bexI [of _ b] bexI [of _ c]) auto
      then show ?thesis using eq abc(7) by simp
    qed
  qed
qed

lemma merge_registers_unfold:
  assumes "0 < depth"
  shows "merge_registers depth rs =
     (if length rs \<le> 1 then ([], None, rs)
      else (case merge_outer rs of
              (tr, Inl e) \<Rightarrow> (tr, Some e, rs)
            | (tr, Inr None) \<Rightarrow> (tr, None, rs)
            | (tr, Inr (Some rs')) \<Rightarrow>
                (case merge_registers (depth - 1) rs' of (tr', res) \<Rightarrow> (tr @ tr', res))))"
  using assms by (subst merge_registers.simps) simp

lemma sorted_wrt_short: "length xs \<le> 1 \<Longrightarrow> sorted_wrt P xs"
proof (cases xs)
  case Nil
  then show ?thesis by simp
next
  case (Cons x ys)
  assume "length xs \<le> 1"
  then have "ys = []" using Cons by simp
  then show ?thesis using Cons by simp
qed

text \<open>
  What \<open>merge_registers\<close> does, whatever the depth: it invokes no callback and the bank
  does not grow. It either returns or raises \<open>RecursionError\<close>, the latter only when
  fewer nested calls are allowed than the bank has regions. When it returns, no two
  regions of the bank can be merged any more, and a further call with any depth
  returns and leaves the bank as it is.
\<close>

lemma merge_registers_result:
  assumes "merge_registers depth rs = (tr, res, rs')"
  shows "tr = [] \<and> length rs' \<le> length rs
       \<and> (case res of
             None \<Rightarrow>
               sorted_wrt (\<lambda>r1 r2. \<not> (is_neighbor r1 r2 \<or> is_intersect r1 r2)) rs'
               \<and> (\<forall>d. 0 < d \<longrightarrow> merge_registers d rs' = ([], None, rs'))
           | Some e \<Rightarrow> e = RecursionError \<and> (depth = 0 \<or> depth < length rs))"
  using assms
proof (induction depth arbitrary: rs tr res rs')
  case 0
  then show ?case by (auto simp: merge_registers.simps)
next
  case (Suc depth)
  note unfold = merge_registers_unfold [of "Suc depth" rs, simplified]
  show ?case
  proof (cases "length rs \<le> 1")
    case True
    then have r: "tr = []" "res = None" "rs' = rs" using Suc.prems unfold by simp_all
    have "\<forall>d. 0 < d \<longrightarrow> merge_registers d rs = ([], None, rs)"
      using True by (simp add: merge_registers_unfold)
    then show ?thesis using r True by (simp add: sorted_wrt_short)
  next
    case False
    from merge_outer_found [of rs] obtain found where
      f: "merge_outer rs = ([], Inr found)"
         "case found of
            None \<Rightarrow> sorted_wrt (\<lambda>r1 r2. \<not> (is_neighbor r1 r2 \<or> is_intersect r1 r2)) rs
          | Some rs1 \<Rightarrow> length rs1 < length rs"
      by (auto split: option.splits)
    show ?thesis
    proof (cases found)
      case None
      then have r: "tr = []" "res = None" "rs' = rs"
        using Suc.prems unfold False f(1) by simp_all
      have "\<forall>d. 0 < d \<longrightarrow> merge_registers d rs = ([], None, rs)"
        using False f(1) None by (simp add: merge_registers_unfold)
      then show ?thesis using r f(2) None by simp
    next
      case (Some rs1)
      obtain t1 res1 rs1' where rec: "merge_registers depth rs1 = (t1, res1, rs1')"
        by (cases "merge_registers depth rs1") auto
      have r: "tr = t1" "res = res1" "rs' = rs1'"
        using Suc.prems unfold False f(1) Some rec by simp_all
      have len: "length rs1 < length rs" using f(2) Some by simp
      note ih = Suc.IH [OF rec]
      show ?thesis
      proof (cases res1)
        case None
        then show ?thesis using ih r len by simp
      next
        case (Some e)
        then have "e = RecursionError" "depth = 0 \<or> depth < length rs1" using ih by simp_all
        then have "Suc depth < length rs" using len False by linarith
        then show ?thesis using ih r len Some by simp
      qed
    qed
  qed
qed

text \<open>A bank with a region that a later region meets is not left as it is: a call that
  returns has removed at least one region.\<close>

lemma merge_registers_shrinks:
  assumes "merge_registers depth rs = (tr, None, rs')"
    and "\<not> sorted_wrt (\<lambda>r1 r2. \<not> (is_neighbor r1 r2 \<or> is_intersect r1 r2)) rs"
  shows "length rs' < length rs"
proof -
  from merge_registers_result [OF assms(1)]
  have "sorted_wrt (\<lambda>r1 r2. \<not> (is_neighbor r1 r2 \<or> is_intersect r1 r2)) rs'"
    and "length rs' \<le> length rs" by simp_all
  moreover have "0 < depth" using assms(1) by (cases depth) (simp_all add: merge_registers.simps)
  moreover have "rs' \<noteq> rs" using calculation(1) assms(2) by auto
  ultimately show ?thesis
  proof -
    have "length rs' \<noteq> length rs"
    proof
      assume eq: "length rs' = length rs"
      have "\<not> length rs \<le> 1" using assms(2) by (auto simp: sorted_wrt_short)
      from merge_outer_found [of rs] obtain found where
        f: "merge_outer rs = ([], Inr found)"
           "case found of
              None \<Rightarrow> sorted_wrt (\<lambda>r1 r2. \<not> (is_neighbor r1 r2 \<or> is_intersect r1 r2)) rs
            | Some rs1 \<Rightarrow> length rs1 < length rs"
        by (auto split: option.splits)
      then obtain rs1 where rs1: "found = Some rs1" "length rs1 < length rs"
        using assms(2) by (cases found) auto
      obtain t1 res1 rs1' where rec: "merge_registers (depth - 1) rs1 = (t1, res1, rs1')"
        by (cases "merge_registers (depth - 1) rs1") auto
      have "rs' = rs1'"
        using assms(1) merge_registers_unfold [OF \<open>0 < depth\<close>, of rs] \<open>\<not> length rs \<le> 1\<close>
              f(1) rs1(1) rec
        by simp
      then have "length rs' \<le> length rs1" using merge_registers_result [OF rec] by simp
      then show False using rs1(2) eq by simp
    qed
    then show ?thesis using \<open>length rs' \<le> length rs\<close> by simp
  qed
qed






text \<open>With only one nested call allowed, merging two adjacent regions raises
  \<open>RecursionError\<close> after the merge has been made.\<close>

lemma merge_registers_depth_exhausted:
  "merge_registers 1 [create 0 (PyBytearray [1, 2]), create 2 (PyBytearray [3, 4])]
     = ([], Some RecursionError, [create 0 (PyBytearray [1, 2, 3, 4])])"
proof -
  have mm: "merged_memory (create 0 (PyBytearray [1, 2])) (create 2 (PyBytearray [3, 4]))
              = [1, 2, 3, 4]"
    by (simp add: merged_memory_def assign_slice_def create_def set_initial_data_def
                  VirtualRegister_def eval_nat_numeral)
  have m: "merge (create 0 (PyBytearray [1, 2])) (create 2 (PyBytearray [3, 4]))
             = ([], Inr (True, create 0 (PyBytearray [1, 2, 3, 4])))"
    unfolding merge_eq mm
    by (simp add: is_neighbor_def get_register_info_def memory_size_def create_def
                  set_initial_data_def VirtualRegister_def)
  show ?thesis
    by (subst merge_registers.simps)
       (simp add: m bind_res_def return_res_def merge_registers.simps [of 0])
qed





section \<open>Properties of the RBCP server\<close>

lemma shifted_masked_byte:
  "(of_int ((drop_bit 24 ((a::int) AND 0xff000000)) AND 0xff) :: byte) = of_int (drop_bit 24 a)"
  "(of_int ((drop_bit 16 ((a::int) AND 0x00ff0000)) AND 0xff) :: byte) = of_int (drop_bit 16 a)"
  "(of_int ((drop_bit 8 ((a::int) AND 0x0000ff00)) AND 0xff) :: byte) = of_int (drop_bit 8 a)"
  "(of_int ((drop_bit 0 ((a::int) AND 0x000000ff)) AND 0xff) :: byte) = of_int a"
proof -
  have m: "(0xff000000 :: int) = push_bit 24 (mask 8)" "(0x00ff0000 :: int) = push_bit 16 (mask 8)"
    "(0x0000ff00 :: int) = push_bit 8 (mask 8)" "(0xff :: int) = mask 8"
    by (simp_all add: mask_eq_exp_minus_1)
  show "(of_int ((drop_bit 24 ((a::int) AND 0xff000000)) AND 0xff) :: byte) = of_int (drop_bit 24 a)"
    unfolding m by (rule bit_eqI) (auto simp: bit_simps)
  show "(of_int ((drop_bit 16 ((a::int) AND 0x00ff0000)) AND 0xff) :: byte) = of_int (drop_bit 16 a)"
    unfolding m by (rule bit_eqI) (auto simp: bit_simps)
  show "(of_int ((drop_bit 8 ((a::int) AND 0x0000ff00)) AND 0xff) :: byte) = of_int (drop_bit 8 a)"
    unfolding m by (rule bit_eqI) (auto simp: bit_simps)
  show "(of_int ((drop_bit 0 ((a::int) AND 0x000000ff)) AND 0xff) :: byte) = of_int a"
    unfolding m by (rule bit_eqI) (auto simp: bit_simps)
qed

lemma div_quotient_remainder: "0 \<le> r \<Longrightarrow> r < d \<Longrightarrow> (q * d + r) div (d::int) = q"
  by (simp add: div_pos_pos_trivial)

text \<open>The address bytes of a header are the four bytes the address was unpacked from.\<close>

lemma address_bytes_unpacked:
  fixes b0 b1 b2 b3 :: byte
  shows "address_bytes (uint b0 * 2 ^ 24 + uint b1 * 2 ^ 16 + uint b2 * 2 ^ 8 + uint b3)
           = [b0, b1, b2, b3]"
proof -
  define a where "a = uint b0 * 2 ^ 24 + uint b1 * 2 ^ 16 + uint b2 * 2 ^ 8 + uint b3"
  have r: "0 \<le> uint b0" "uint b0 < 256" "0 \<le> uint b1" "uint b1 < 256"
          "0 \<le> uint b2" "uint b2 < 256" "0 \<le> uint b3" "uint b3 < 256"
    using uint_lt2p [of b0] uint_lt2p [of b1] uint_lt2p [of b2] uint_lt2p [of b3] by simp_all
  have d24: "a div 2 ^ 24 = uint b0"
    using div_quotient_remainder [of "uint b1 * 2 ^ 16 + uint b2 * 2 ^ 8 + uint b3" "2 ^ 24" "uint b0"] r
    by (simp add: a_def algebra_simps)
  have d16: "a div 2 ^ 16 = uint b0 * 256 + uint b1"
    using div_quotient_remainder [of "uint b2 * 2 ^ 8 + uint b3" "2 ^ 16" "uint b0 * 256 + uint b1"] r
    by (simp add: a_def algebra_simps)
  have d8: "a div 2 ^ 8 = uint b0 * 65536 + uint b1 * 256 + uint b2"
    using div_quotient_remainder [of "uint b3" "2 ^ 8" "uint b0 * 65536 + uint b1 * 256 + uint b2"] r
    by (simp add: a_def algebra_simps)
  have z: "(256 :: byte) = 0" "(65536 :: byte) = 0" "(16777216 :: byte) = 0"
    by (simp_all add: word_eq_iff_unsigned [where ?'a = nat])
  have "(of_int (drop_bit 24 a) :: byte) = b0" using d24 by (simp add: drop_bit_eq_div)
  moreover have "(of_int (drop_bit 16 a) :: byte) = b1" using d16 by (simp add: drop_bit_eq_div z)
  moreover have "(of_int (drop_bit 8 a) :: byte) = b2" using d8 by (simp add: drop_bit_eq_div z)
  moreover have "(of_int a :: byte) = b3" by (simp add: a_def z)
  ultimately show ?thesis
    unfolding a_def [symmetric] address_bytes_def shifted_masked_byte by simp
qed

lemma four_bytes:
  assumes "8 \<le> length msg"
  shows "take 4 (drop 4 msg) = [msg ! 4, msg ! 5, msg ! 6, msg ! 7]"
proof (rule nth_equalityI)
  show "length (take 4 (drop 4 msg)) = length [msg ! 4, msg ! 5, msg ! 6, msg ! 7]"
    using assms by simp
next
  fix i assume "i < length (take 4 (drop 4 msg))"
  then have "i < 4" by simp
  then consider "i = 0" | "i = 1" | "i = 2" | "i = 3" by linarith
  then show "take 4 (drop 4 msg) ! i = [msg ! 4, msg ! 5, msg ! 6, msg ! 7] ! i"
    using assms by cases simp_all
qed

lemma unpack_I_datagram:
  assumes "8 \<le> length msg"
  shows "unpack_I (take 4 (drop 4 msg))
           = Inr (uint (msg ! 4) * 2 ^ 24 + uint (msg ! 5) * 2 ^ 16 + uint (msg ! 6) * 2 ^ 8
                  + uint (msg ! 7))"
  unfolding four_bytes [OF assms] by (simp add: unpack_I_def)

text \<open>A reply that is sent: its header fields.\<close>

lemma send_reply_fields:
  assumes "send_reply tr (server_make_header rw (uint p) a len) payload srv
             = (tr', Inr (action, srv'))"
    and "address_bytes a = [b4, b5, b6, b7]"
    and "rw \<in> {''r'', ''w'', ''re'', ''we''}"
  shows "0 \<le> len \<and> len \<le> 255 \<and> srv' = srv \<and> tr' = tr
         \<and> action = Reply ([0xff,
                             (if rw = ''r'' then 0xc8 else if rw = ''w'' then 0x88
                              else if rw = ''re'' then 0xc9 else 0x89),
                             p, of_int len, b4, b5, b6, b7] @ payload)"
proof -
  have p: "pack_B (uint p) = Inr p"
    using uint_lt2p [of p] by (simp add: pack_B_def)
  show ?thesis
    using assms p
    by (auto simp: send_reply_def server_make_header_def pack_B_def Let_def
             split: sum.splits if_splits)
qed

lemma read_registers_length:
  "read_registers rs a n = (tr, Inr read_data) \<Longrightarrow> length read_data = n"
proof (induction rs arbitrary: tr)
  case Nil
  then show ?case by (simp add: raise_res_def)
next
  case (Cons r rs)
  show ?case
  proof (cases "check_address_range r a n")
    case True
    then have "nat (a - start_address r) + n \<le> length (memory r)"
      by (auto simp: check_address_range_def memory_size_def)
    then show ?thesis using Cons.prems True by (auto simp: read_bytes_def)
  next
    case False
    obtain t y where rest: "read_registers rs a n = (t, y)" by (cases "read_registers rs a n")
    then have "y = Inr read_data"
      using Cons.prems False by (auto simp: read_bytes_def raise_res_def bind_res_def)
    then show ?thesis using Cons.IH rest by simp
  qed
qed

text \<open>What the register accesses of the server can raise: a read only
  \<open>VirtualRegisterOutOfRange\<close>, and a write the same when no register has a write
  callback and every register's memory is a \<open>bytearray\<close>.\<close>

lemma read_registers_raises:
  "read_registers rs a n = (tr, Inl e) \<Longrightarrow> e = VirtualRegisterOutOfRange"
proof (induction rs arbitrary: tr)
  case Nil
  then show ?case by (simp add: raise_res_def)
next
  case (Cons r rs)
  obtain t y where rest: "read_registers rs a n = (t, y)" by (cases "read_registers rs a n")
  show ?case
  proof (cases "check_address_range r a n")
    case True
    then show ?thesis using Cons.prems by (simp add: read_bytes_def)
  next
    case False
    then have "y = Inl e"
      using Cons.prems rest by (auto simp: read_bytes_def raise_res_def bind_res_def)
    then show ?thesis using Cons.IH rest by simp
  qed
qed

lemma write_registers_raises:
  assumes "\<forall>r \<in> set rs. write_callbacks r = Map.empty \<and> memory_is_bytearray r"
    and "write_registers rs a data = (tr, Inl e)"
  shows "e = VirtualRegisterOutOfRange"
  using assms
proof (induction rs arbitrary: tr)
  case Nil
  then show ?case by (simp add: raise_res_def)
next
  case (Cons r rs)
  obtain t y where rest: "write_registers rs a data = (t, y)"
    by (cases "write_registers rs a data")
  have ih: "y = Inl e \<Longrightarrow> e = VirtualRegisterOutOfRange"
    using Cons.IH [of t] Cons.prems(1) rest by simp
  have cb: "write_callbacks r = Map.empty" "memory_is_bytearray r" using Cons.prems(1) by simp_all
  show ?case
  proof (cases "check_address_range r a (length data)")
    case True
    define written where
      "written = r\<lparr>memory := assign_slice (memory r) (nat (a - start_address r)) data\<rparr>"
    have w: "write_bytes r a data = ([], Inr written)"
      using write_bytes_no_callbacks [OF cb(1) True cb(2)] by (simp add: written_def)
    have "nat (a - start_address r) + length data \<le> length (memory r)"
      using True by (auto simp: check_address_range_def memory_size_def)
    then have "check_address_range written a (length data)"
      using True by (simp add: written_def check_address_range_def memory_size_def
                               length_assign_slice)
    then have "\<exists>t2 d. read_bytes written a (length data) = (t2, Inr d)"
      by (simp add: read_bytes_def)
    then show ?thesis using Cons.prems(2) w by auto
  next
    case False
    then have "write_bytes r a data = ([], Inl VirtualRegisterOutOfRange)"
      by (simp add: write_bytes_def raise_res_def)
    then have "y = Inl e"
      using Cons.prems(2) rest
      by (auto simp: bind_res_def return_res_def split: sum.splits prod.splits)
    then show ?thesis by (rule ih)
  qed
qed

text \<open>A write into a region whose memory is a \<open>bytes\<close> object raises \<open>TypeError\<close>, and so
  does the server loop on such a request: nothing is sent.\<close>

lemma write_to_bytes_region:
  "write_bytes (create 0 (PyBytes [1, 2])) 0 [9] = ([], Inl TypeError)"
  "handle_datagram \<lparr>registers = [create 0 (PyBytes [1, 2])], error_short_message = 0\<rparr>
     [0xff, 0x80, 9, 1, 0, 0, 0, 0, 9] = ([], Inl TypeError)"
proof -
  show w: "write_bytes (create 0 (PyBytes [1, 2])) 0 [9] = ([], Inl TypeError)"
    by (simp add: write_bytes_def create_def set_initial_data_def VirtualRegister_def
                  check_address_range_def memory_size_def py_range_def
                  bind_res_def return_res_def raise_res_def)
  show "handle_datagram \<lparr>registers = [create 0 (PyBytes [1, 2])], error_short_message = 0\<rparr>
     [0xff, 0x80, 9, 1, 0, 0, 0, 0, 9] = ([], Inl TypeError)"
    by (simp add: handle_datagram_def unpack_I_def w)
qed

text \<open>A well-formed request with at most 255 bytes of payload, to a bank without write
  callbacks whose memories are all \<open>bytearray\<close> objects, is always answered.\<close>

lemma server_replies:
  assumes "8 \<le> length msg" and "msg ! 0 = 0xff" and "msg ! 1 = 0xc0 \<or> msg ! 1 = 0x80"
    and "length msg \<le> 263"
    and "\<forall>r \<in> set (registers srv). write_callbacks r = Map.empty \<and> memory_is_bytearray r"
  shows "\<exists>tr reply srv'. handle_datagram srv msg = (tr, Inr (Reply reply, srv'))"
proof -
  define a where "a = uint (msg ! 4) * 2 ^ 24 + uint (msg ! 5) * 2 ^ 16 + uint (msg ! 6) * 2 ^ 8
                       + uint (msg ! 7)"
  have un: "unpack_I (take 4 (drop 4 msg)) = Inr a"
    using unpack_I_datagram [OF assms(1)] by (simp add: a_def)
  have id_ok: "pack_B (uint (msg ! 2)) = Inr (msg ! 2)"
    using uint_lt2p [of "msg ! 2"] by (simp add: pack_B_def)
  have len_ok: "pack_B (int (unat (msg ! 3))) = Inr (msg ! 3)"
    using uint_lt2p [of "msg ! 3"] by (simp add: pack_B_def)
  have pay_ok: "\<exists>n. pack_B (int (length (drop 8 msg))) = Inr n"
    using assms(1,4) by (simp add: pack_B_def)
  have hdr: "\<exists>h. server_make_header rw (uint (msg ! 2)) a (int (unat (msg ! 3))) = Inr h"
            "\<exists>h. server_make_header rw (uint (msg ! 2)) a (int (length (drop 8 msg))) = Inr h"
    for rw
    using id_ok len_ok pay_ok by (auto simp: server_make_header_def Let_def)
  show ?thesis
  proof (cases "msg ! 1 = 0xc0")
    case True
    obtain t y where rd: "read_registers (registers srv) a (unat (msg ! 3)) = (t, y)"
      by (cases "read_registers (registers srv) a (unat (msg ! 3))")
    show ?thesis
    proof (cases y)
      case (Inr d)
      then show ?thesis
        using assms(1,2) True un rd hdr(1) [of "''r''"]
        by (auto simp: handle_datagram_def Let_def send_reply_def)
    next
      case (Inl e)
      then have "e = VirtualRegisterOutOfRange" using read_registers_raises rd by blast
      then show ?thesis
        using assms(1,2) True un rd Inl hdr(2) [of "''re''"]
        by (auto simp: handle_datagram_def Let_def send_reply_def)
    qed
  next
    case False
    then have w: "msg ! 1 = 0x80" using assms(3) by simp
    obtain t y where wr: "write_registers (registers srv) a (take (unat (msg ! 3)) (drop 8 msg))
                            = (t, y)"
      by (cases "write_registers (registers srv) a (take (unat (msg ! 3)) (drop 8 msg))")
    show ?thesis
    proof (cases y)
      case (Inr p)
      then show ?thesis
        using assms(1,2) w un wr hdr(1) [of "''w''"]
        by (cases p) (auto simp: handle_datagram_def Let_def send_reply_def)
    next
      case (Inl e)
      then have "e = VirtualRegisterOutOfRange"
        using write_registers_raises [OF assms(5)] wr by blast
      then show ?thesis
        using assms(1,2) w un wr Inl hdr(2) [of "''we''"]
        by (auto simp: handle_datagram_def Let_def send_reply_def)
    qed
  qed
qed

text \<open>
  C6 (as stated, refuted): the default bank, and a read request with id 7 for 4 bytes at
  address \<open>0xFE\<close>, which no region contains. The reply has the command byte \<open>0xC9\<close>, the
  id 7 and the address \<open>0xFE\<close>, but its length field is 0, the number of payload bytes
  that came with the request, and not the 4 of the request.
\<close>

theorem bus_error_reply_length_counterexample:
  "handle_datagram RbcpServer_init [0xff, 0xc0, 7, 4, 0, 0, 0, 0xfe]
     = ([], Inr (Reply [0xff, 0xc9, 7, 0, 0, 0, 0, 0xfe], RbcpServer_init))
   \<and> [0xff, 0xc9, 7, 0, 0, 0, 0, 0xfe :: byte] ! 3 \<noteq> [0xff, 0xc0, 7, 4, 0, 0, 0, 0xfe] ! 3"
proof -
  have a: "address_bytes 254 = [0, 0, 0, 0xfe]"
    using address_bytes_unpacked [of 0 0 0 "0xfe"] by simp
  have "read_registers (registers RbcpServer_init) 254 4 = ([], Inl VirtualRegisterOutOfRange)"
    by (simp add: RbcpServer_init_def VirtualRegister_def read_bytes_def check_address_range_def
                  memory_size_def raise_res_def bind_res_def)
  then show ?thesis
    by (simp add: handle_datagram_def unpack_I_def send_reply_def server_make_header_def
                  pack_B_def a)
qed

text \<open>
  C6 (amended): for every well-formed request (at least 8 bytes, version \<open>0xFF\<close>, command
  \<open>0xC0\<close> or \<open>0x80\<close>) to which the server sends a reply, the reply echoes the id and the
  four address bytes of the request; a read is answered with \<open>0xC8\<close> or \<open>0xC9\<close>, a write
  with \<open>0x88\<close> or \<open>0x89\<close>. The success replies (\<open>0xC8\<close>, \<open>0x88\<close>) echo the length field of the
  request; the read reply carries that many bytes and the write reply carries the
  request's payload. The bus-error replies (\<open>0xC9\<close>, \<open>0x89\<close>) carry the payload supplied by
  the requester, and their length field is the number of bytes of that payload, not
  the length field of the request.
\<close>

theorem server_reply_echo:
  assumes "8 \<le> length msg" and "msg ! 0 = 0xff" and "msg ! 1 = 0xc0 \<or> msg ! 1 = 0x80"
    and "handle_datagram srv msg = (tr, Inr (action, srv'))"
  shows "\<exists>cmd len payload.
           action = Reply ([0xff, cmd, msg ! 2, len, msg ! 4, msg ! 5, msg ! 6, msg ! 7] @ payload)
           \<and> (msg ! 1 = 0xc0 \<longrightarrow> cmd = 0xc8 \<or> cmd = 0xc9)
           \<and> (msg ! 1 = 0x80 \<longrightarrow> cmd = 0x88 \<or> cmd = 0x89)
           \<and> (cmd = 0xc8 \<longrightarrow> len = msg ! 3 \<and> length payload = unat (msg ! 3))
           \<and> (cmd = 0x88 \<longrightarrow> len = msg ! 3 \<and> payload = drop 8 msg)
           \<and> (cmd = 0xc9 \<or> cmd = 0x89 \<longrightarrow>
                 payload = drop 8 msg \<and> unat len = length msg - 8)"
proof -
  define a where "a = uint (msg ! 4) * 2 ^ 24 + uint (msg ! 5) * 2 ^ 16 + uint (msg ! 6) * 2 ^ 8
                       + uint (msg ! 7)"
  have un: "unpack_I (take 4 (drop 4 msg)) = Inr a"
    using unpack_I_datagram [OF assms(1)] by (simp add: a_def)
  have ab: "address_bytes a = [msg ! 4, msg ! 5, msg ! 6, msg ! 7]"
    unfolding a_def by (rule address_bytes_unpacked)
  have len_echo: "(of_int (int (unat (msg ! 3))) :: byte) = msg ! 3" by simp
  have len_payload: "unat (of_int (int (length (drop 8 msg))) :: byte) = length msg - 8"
    if "int (length (drop 8 msg)) \<le> 255"
    using that by (simp add: unat_of_nat)
  show ?thesis
  proof (cases "msg ! 1 = 0xc0")
    case True
    obtain t y where rd: "read_registers (registers srv) a (unat (msg ! 3)) = (t, y)"
      by (cases "read_registers (registers srv) a (unat (msg ! 3))")
    show ?thesis
    proof (cases y)
      case (Inr read_data)
      have "send_reply t (server_make_header ''r'' (uint (msg ! 2)) a (int (unat (msg ! 3))))
              read_data srv = (tr, Inr (action, srv'))"
        using assms(1,2,4) True un rd Inr by (simp add: handle_datagram_def return_res_def Let_def)
      from send_reply_fields [OF this ab]
      have "action = Reply ([0xff, 0xc8, msg ! 2, msg ! 3, msg ! 4, msg ! 5, msg ! 6, msg ! 7]
                            @ read_data)"
        using len_echo by simp
      moreover have "length read_data = unat (msg ! 3)"
        using read_registers_length rd Inr by blast
      ultimately show ?thesis using True by auto
    next
      case (Inl e)
      have "e = VirtualRegisterOutOfRange"
        using assms(1,2,4) True un rd Inl
        by (auto simp: handle_datagram_def return_res_def Let_def split: if_splits)
      then have "send_reply t (server_make_header ''re'' (uint (msg ! 2)) a
                    (int (length (drop 8 msg)))) (drop 8 msg) srv = (tr, Inr (action, srv'))"
        using assms(1,2,4) True un rd Inl by (simp add: handle_datagram_def return_res_def Let_def)
      from send_reply_fields [OF this ab]
      have "int (length (drop 8 msg)) \<le> 255"
        and "action = Reply ([0xff, 0xc9, msg ! 2, of_int (int (length (drop 8 msg))),
                             msg ! 4, msg ! 5, msg ! 6, msg ! 7] @ drop 8 msg)"
        by simp_all
      then show ?thesis using True len_payload by auto
    qed
  next
    case False
    then have w: "msg ! 1 = 0x80" using assms(3) by simp
    obtain t y where wr: "write_registers (registers srv) a (take (unat (msg ! 3)) (drop 8 msg))
                            = (t, y)"
      by (cases "write_registers (registers srv) a (take (unat (msg ! 3)) (drop 8 msg))")
    show ?thesis
    proof (cases y)
      case (Inr p)
      obtain read_back regs where p: "p = (read_back, regs)" by (cases p)
      have "send_reply t (server_make_header ''w'' (uint (msg ! 2)) a (int (unat (msg ! 3))))
              (drop 8 msg) (srv\<lparr>registers := regs\<rparr>) = (tr, Inr (action, srv'))"
        using assms(1,2,4) w un wr Inr p by (simp add: handle_datagram_def return_res_def Let_def)
      from send_reply_fields [OF this ab]
      have "action = Reply ([0xff, 0x88, msg ! 2, msg ! 3, msg ! 4, msg ! 5, msg ! 6, msg ! 7]
                            @ drop 8 msg)"
        using len_echo by simp
      then show ?thesis using w by auto
    next
      case (Inl e)
      have "e = VirtualRegisterOutOfRange"
        using assms(1,2,4) w un wr Inl
        by (auto simp: handle_datagram_def return_res_def Let_def split: if_splits)
      then have "send_reply t (server_make_header ''we'' (uint (msg ! 2)) a
                    (int (length (drop 8 msg)))) (drop 8 msg) srv = (tr, Inr (action, srv'))"
        using assms(1,2,4) w un wr Inl by (simp add: handle_datagram_def return_res_def Let_def)
      from send_reply_fields [OF this ab]
      have "int (length (drop 8 msg)) \<le> 255"
        and "action = Reply ([0xff, 0x89, msg ! 2, of_int (int (length (drop 8 msg))),
                             msg ! 4, msg ! 5, msg ! 6, msg ! 7] @ drop 8 msg)"
        by simp_all
      then show ?thesis using w len_payload by auto
    qed
  qed
qed

theorem server_reply_echo_witness:
  "handle_datagram \<lparr>registers = [create 0x10 (PyBytearray [0xaa, 0xbb, 0xcc])], error_short_message = 0\<rparr>
     [0xff, 0xc0, 9, 2, 0, 0, 0, 0x11]
     = ([], Inr (Reply [0xff, 0xc8, 9, 2, 0, 0, 0, 0x11, 0xbb, 0xcc],
                 \<lparr>registers = [create 0x10 (PyBytearray [0xaa, 0xbb, 0xcc])], error_short_message = 0\<rparr>))
   \<and> handle_datagram \<lparr>registers = [create 0x10 (PyBytearray [0xaa, 0xbb, 0xcc])], error_short_message = 0\<rparr>
     [0xff, 0x80, 9, 2, 0, 0, 0, 0x12, 0x01, 0x02]
     = ([], Inr (Reply [0xff, 0x89, 9, 2, 0, 0, 0, 0x12, 0x01, 0x02],
                 \<lparr>registers = [create 0x10 (PyBytearray [0xaa, 0xbb, 0xcc])], error_short_message = 0\<rparr>))"
proof -
  let ?srv = "\<lparr>registers = [create 0x10 (PyBytearray [0xaa, 0xbb, 0xcc])], error_short_message = 0\<rparr>"
  let ?rd = "[0xff, 0xc0, 9, 2, 0, 0, 0, 0x11 :: byte]"
  let ?wr = "[0xff, 0x80, 9, 2, 0, 0, 0, 0x12, 0x01, 0x02 :: byte]"
  have a: "address_bytes 17 = [0, 0, 0, 0x11]" "address_bytes 18 = [0, 0, 0, 0x12]"
    using address_bytes_unpacked [of 0 0 0 "0x11"] address_bytes_unpacked [of 0 0 0 "0x12"]
    by simp_all
  have r: "read_registers [create 0x10 (PyBytearray [0xaa, 0xbb, 0xcc])] 17 2 = ([], Inr [0xbb, 0xcc])"
    by (simp add: create_def set_initial_data_def VirtualRegister_def read_bytes_def
                  check_address_range_def memory_size_def py_range_def
                  upt_rec [of _ "Suc _"] eval_nat_numeral)
  have w: "write_registers [create 0x10 (PyBytearray [0xaa, 0xbb, 0xcc])] 18 [0x01, 0x02]
             = ([], Inl VirtualRegisterOutOfRange)"
    by (simp add: create_def set_initial_data_def VirtualRegister_def write_bytes_def
                  check_address_range_def memory_size_def raise_res_def bind_res_def)
  have h1: "handle_datagram ?srv ?rd
              = ([], Inr (Reply [0xff, 0xc8, 9, 2, 0, 0, 0, 0x11, 0xbb, 0xcc], ?srv))"
    by (simp add: handle_datagram_def unpack_I_def send_reply_def server_make_header_def
                  pack_B_def a r del: read_registers.simps)
  have h2: "handle_datagram ?srv ?wr
              = ([], Inr (Reply [0xff, 0x89, 9, 2, 0, 0, 0, 0x12, 0x01, 0x02], ?srv))"
    by (simp add: handle_datagram_def unpack_I_def send_reply_def server_make_header_def
                  pack_B_def a w del: write_registers.simps)
  have l: "8 \<le> length ?rd" "?rd ! 0 = 0xff" "?rd ! 1 = 0xc0 \<or> ?rd ! 1 = 0x80" by simp_all
  show ?thesis
    using server_reply_echo [OF l h1] h1 h2 by simp
qed


end
